theory Spec2Isabelle
  imports Main "HOL-Library.Word"
begin

section \<open>Go channels\<close>

text \<open>
  The client of \<^verbatim>\<open>asyncclient.go\<close> is built from two buffered Go channels and one
  goroutine. A channel operation either completes, or blocks the goroutine that issues
  it, or panics (which aborts the whole Go program).
\<close>

datatype 'a outcome = Done 'a | Blocked | Panic

text \<open>
  A buffered channel \<^verbatim>\<open>make(chan T, n)\<close>: the values in its buffer, oldest first,
  its capacity, and whether \<^verbatim>\<open>close\<close> has been called on it.
\<close>

record 'a chan =
  ch_buf :: "'a list"
  ch_cap :: nat
  ch_closed :: bool

definition make_chan :: "nat \<Rightarrow> 'a chan" where
  "make_chan n = \<lparr>ch_buf = [], ch_cap = n, ch_closed = False\<rparr>"

text \<open>
  \<^verbatim>\<open>ch <- v\<close>: a send on a closed channel panics; otherwise the value is appended when
  the buffer has room, and the sender blocks when it has none.
\<close>

definition chan_send :: "'a \<Rightarrow> 'a chan \<Rightarrow> 'a chan outcome" where
  "chan_send v ch =
     (if ch_closed ch then Panic
      else if length (ch_buf ch) < ch_cap ch then Done (ch\<lparr>ch_buf := ch_buf ch @ [v]\<rparr>)
      else Blocked)"

text \<open>
  \<^verbatim>\<open>v, open := <-ch\<close>: the oldest buffered value is received (also from a closed
  channel); on an empty buffer the receive yields \<^verbatim>\<open>open = false\<close> when the channel is
  closed (\<open>None\<close> here) and blocks when it is open.
\<close>

definition chan_recv :: "'a chan \<Rightarrow> ('a option \<times> 'a chan) outcome" where
  "chan_recv ch =
     (case ch_buf ch of
        v # vs \<Rightarrow> Done (Some v, ch\<lparr>ch_buf := vs\<rparr>)
      | [] \<Rightarrow> if ch_closed ch then Done (None, ch) else Blocked)"

text \<open>\<^verbatim>\<open>close(ch)\<close>: closing a closed channel panics; the buffer is kept.\<close>

definition chan_close :: "'a chan \<Rightarrow> 'a chan outcome" where
  "chan_close ch = (if ch_closed ch then Panic else Done (ch\<lparr>ch_closed := True\<rparr>))"

section \<open>The synchronous client\<close>

type_synonym int64 = "64 word"

text \<open>A \<^verbatim>\<open>float64\<close> is only passed on by this file: its 64 bits stand for it.\<close>

type_synonym float64 = "64 word"

text \<open>
  The metric operations that \<^verbatim>\<open>*StatsdClient\<close> and \<^verbatim>\<open>*AsyncClient\<close> both offer, each
  with its arguments. \<open>'ev\<close> is \<^verbatim>\<open>event.Event\<close>, an interface value of another package;
  \<^verbatim>\<open>time.Duration\<close> is an \<^verbatim>\<open>int64\<close>. The arguments are Go values: strings and numbers
  are copied into the call, and of an event the interface value is (what it may refer to
  is the other package's and the caller's, and is not described here).
\<close>

datatype 'ev metric =
    OpIncr string int64
  | OpDecr string int64
  | OpTiming string int64
  | OpPrecisionTiming string int64
  | OpGauge string int64
  | OpGaugeDelta string int64
  | OpFGauge string float64
  | OpFGaugeDelta string float64
  | OpAbsolute string int64
  | OpFAbsolute string float64
  | OpTotal string int64
  | OpSendEvent 'ev

text \<open>
  \<^verbatim>\<open>StatsdClient\<close> (its constructor, \<^verbatim>\<open>CreateSocket\<close>, \<^verbatim>\<open>Close\<close> and the twelve metric
  methods) is defined in another file of the package, so it is a parameter here: any
  state type \<open>'e\<close>, any error type \<open>'x\<close> (\<open>None\<close> is Go's \<^verbatim>\<open>nil\<close> error), and any
  behaviour of the methods on that state.
\<close>

record ('e, 'x, 'ev) emitter =
  em_new :: "string \<Rightarrow> string \<Rightarrow> 'e"
  em_create_socket :: "'e \<Rightarrow> 'x option \<times> 'e"
  em_metric :: "'ev metric \<Rightarrow> 'e \<Rightarrow> 'x option \<times> 'e"
  em_close :: "'e \<Rightarrow> 'x option \<times> 'e"

text \<open>
  The object behind the pointer \<^verbatim>\<open>c.statsd\<close>: the state of the synchronous client,
  and the metric operations it has been asked to perform so far, oldest first, each with
  the error it returned.
\<close>

record ('e, 'x, 'ev) StatsdClient =
  conn :: 'e
  sent :: "('ev metric \<times> 'x option) list"

definition NewStatsdClient ::
  "('e, 'x, 'ev) emitter \<Rightarrow> string \<Rightarrow> string \<Rightarrow> ('e, 'x, 'ev) StatsdClient" where
  "NewStatsdClient em addr prefix = \<lparr>conn = em_new em addr prefix, sent = []\<rparr>"

definition statsd_CreateSocket ::
  "('e, 'x, 'ev) emitter \<Rightarrow> ('e, 'x, 'ev) StatsdClient \<Rightarrow> 'x option \<times> ('e, 'x, 'ev) StatsdClient" where
  "statsd_CreateSocket em st =
     (case em_create_socket em (conn st) of (err, e) \<Rightarrow> (err, st\<lparr>conn := e\<rparr>))"

definition statsd_Close ::
  "('e, 'x, 'ev) emitter \<Rightarrow> ('e, 'x, 'ev) StatsdClient \<Rightarrow> 'x option \<times> ('e, 'x, 'ev) StatsdClient" where
  "statsd_Close em st =
     (case em_close em (conn st) of (err, e) \<Rightarrow> (err, st\<lparr>conn := e\<rparr>))"

text \<open>A metric method of the synchronous client, \<^verbatim>\<open>c.statsd.Incr(stat, count)\<close> and so on.\<close>

definition statsd_metric ::
  "('e, 'x, 'ev) emitter \<Rightarrow> 'ev metric \<Rightarrow> ('e, 'x, 'ev) StatsdClient
     \<Rightarrow> 'x option \<times> ('e, 'x, 'ev) StatsdClient" where
  "statsd_metric em m st =
     (case em_metric em m (conn st) of
        (err, e) \<Rightarrow> (err, \<lparr>conn = e, sent = sent st @ [(m, err)]\<rparr>))"

section \<open>The asynchronous client\<close>

text \<open>A queued request is a Go closure \<^verbatim>\<open>func() error\<close> over the synchronous client.\<close>

type_synonym ('e, 'x, 'ev) request =
  "('e, 'x, 'ev) StatsdClient \<Rightarrow> 'x option \<times> ('e, 'x, 'ev) StatsdClient"

record ('e, 'x, 'ev) AsyncClient =
  statsd :: "('e, 'x, 'ev) StatsdClient"
  ErrorChan :: "'x chan"
  requestChan :: "('e, 'x, 'ev) request chan"

text \<open>
  \<^verbatim>\<open>NewAsyncClient\<close> also starts the goroutine \<^verbatim>\<open>c.process()\<close>; see \<open>start\<close> below.
\<close>

definition NewAsyncClient ::
  "('e, 'x, 'ev) emitter \<Rightarrow> string \<Rightarrow> string \<Rightarrow> ('e, 'x, 'ev) AsyncClient" where
  "NewAsyncClient em addr prefix =
     \<lparr>statsd = NewStatsdClient em addr prefix,
      ErrorChan = make_chan 100,
      requestChan = make_chan 1000\<rparr>"

definition CreateSocket ::
  "('e, 'x, 'ev) emitter \<Rightarrow> ('e, 'x, 'ev) AsyncClient \<Rightarrow> 'x option \<times> ('e, 'x, 'ev) AsyncClient" where
  "CreateSocket em c =
     (case statsd_CreateSocket em (statsd c) of (err, st) \<Rightarrow> (err, c\<lparr>statsd := st\<rparr>))"

text \<open>\<^verbatim>\<open>c.requestChan <- f\<close>, the whole body of every metric method.\<close>

definition enqueue ::
  "('e, 'x, 'ev) request \<Rightarrow> ('e, 'x, 'ev) AsyncClient \<Rightarrow> ('e, 'x, 'ev) AsyncClient outcome" where
  "enqueue f c =
     (case chan_send f (requestChan c) of
        Done ch \<Rightarrow> Done (c\<lparr>requestChan := ch\<rparr>)
      | Blocked \<Rightarrow> Blocked
      | Panic \<Rightarrow> Panic)"

definition Incr ::
  "('e, 'x, 'ev) emitter \<Rightarrow> string \<Rightarrow> int64 \<Rightarrow> ('e, 'x, 'ev) AsyncClient
     \<Rightarrow> ('e, 'x, 'ev) AsyncClient outcome" where
  "Incr em stat count' c = enqueue (\<lambda>st. statsd_metric em (OpIncr stat count') st) c"

definition Decr ::
  "('e, 'x, 'ev) emitter \<Rightarrow> string \<Rightarrow> int64 \<Rightarrow> ('e, 'x, 'ev) AsyncClient
     \<Rightarrow> ('e, 'x, 'ev) AsyncClient outcome" where
  "Decr em stat count' c = enqueue (\<lambda>st. statsd_metric em (OpDecr stat count') st) c"

definition Timing ::
  "('e, 'x, 'ev) emitter \<Rightarrow> string \<Rightarrow> int64 \<Rightarrow> ('e, 'x, 'ev) AsyncClient
     \<Rightarrow> ('e, 'x, 'ev) AsyncClient outcome" where
  "Timing em stat delta c = enqueue (\<lambda>st. statsd_metric em (OpTiming stat delta) st) c"

definition PrecisionTiming ::
  "('e, 'x, 'ev) emitter \<Rightarrow> string \<Rightarrow> int64 \<Rightarrow> ('e, 'x, 'ev) AsyncClient
     \<Rightarrow> ('e, 'x, 'ev) AsyncClient outcome" where
  "PrecisionTiming em stat delta c =
     enqueue (\<lambda>st. statsd_metric em (OpPrecisionTiming stat delta) st) c"

definition Gauge ::
  "('e, 'x, 'ev) emitter \<Rightarrow> string \<Rightarrow> int64 \<Rightarrow> ('e, 'x, 'ev) AsyncClient
     \<Rightarrow> ('e, 'x, 'ev) AsyncClient outcome" where
  "Gauge em stat v c = enqueue (\<lambda>st. statsd_metric em (OpGauge stat v) st) c"

definition GaugeDelta ::
  "('e, 'x, 'ev) emitter \<Rightarrow> string \<Rightarrow> int64 \<Rightarrow> ('e, 'x, 'ev) AsyncClient
     \<Rightarrow> ('e, 'x, 'ev) AsyncClient outcome" where
  "GaugeDelta em stat v c = enqueue (\<lambda>st. statsd_metric em (OpGaugeDelta stat v) st) c"

definition FGauge ::
  "('e, 'x, 'ev) emitter \<Rightarrow> string \<Rightarrow> float64 \<Rightarrow> ('e, 'x, 'ev) AsyncClient
     \<Rightarrow> ('e, 'x, 'ev) AsyncClient outcome" where
  "FGauge em stat v c = enqueue (\<lambda>st. statsd_metric em (OpFGauge stat v) st) c"

definition FGaugeDelta ::
  "('e, 'x, 'ev) emitter \<Rightarrow> string \<Rightarrow> float64 \<Rightarrow> ('e, 'x, 'ev) AsyncClient
     \<Rightarrow> ('e, 'x, 'ev) AsyncClient outcome" where
  "FGaugeDelta em stat v c = enqueue (\<lambda>st. statsd_metric em (OpFGaugeDelta stat v) st) c"

definition Absolute ::
  "('e, 'x, 'ev) emitter \<Rightarrow> string \<Rightarrow> int64 \<Rightarrow> ('e, 'x, 'ev) AsyncClient
     \<Rightarrow> ('e, 'x, 'ev) AsyncClient outcome" where
  "Absolute em stat v c = enqueue (\<lambda>st. statsd_metric em (OpAbsolute stat v) st) c"

definition FAbsolute ::
  "('e, 'x, 'ev) emitter \<Rightarrow> string \<Rightarrow> float64 \<Rightarrow> ('e, 'x, 'ev) AsyncClient
     \<Rightarrow> ('e, 'x, 'ev) AsyncClient outcome" where
  "FAbsolute em stat v c = enqueue (\<lambda>st. statsd_metric em (OpFAbsolute stat v) st) c"

definition Total ::
  "('e, 'x, 'ev) emitter \<Rightarrow> string \<Rightarrow> int64 \<Rightarrow> ('e, 'x, 'ev) AsyncClient
     \<Rightarrow> ('e, 'x, 'ev) AsyncClient outcome" where
  "Total em stat v c = enqueue (\<lambda>st. statsd_metric em (OpTotal stat v) st) c"

definition SendEvent ::
  "('e, 'x, 'ev) emitter \<Rightarrow> 'ev \<Rightarrow> ('e, 'x, 'ev) AsyncClient
     \<Rightarrow> ('e, 'x, 'ev) AsyncClient outcome" where
  "SendEvent em e c = enqueue (\<lambda>st. statsd_metric em (OpSendEvent e) st) c"

text \<open>
  \<^verbatim>\<open>Close\<close>: the error of \<^verbatim>\<open>c.statsd.Close()\<close> is returned before the channel is touched;
  otherwise the request channel is closed and \<^verbatim>\<open>nil\<close> is returned.
\<close>

definition Close ::
  "('e, 'x, 'ev) emitter \<Rightarrow> ('e, 'x, 'ev) AsyncClient
     \<Rightarrow> ('x option \<times> ('e, 'x, 'ev) AsyncClient) outcome" where
  "Close em c =
     (case statsd_Close em (statsd c) of
        (Some err, st) \<Rightarrow> Done (Some err, c\<lparr>statsd := st\<rparr>)
      | (None, st) \<Rightarrow>
          (case chan_close (requestChan c) of
             Done ch \<Rightarrow> Done (None, c\<lparr>statsd := st, requestChan := ch\<rparr>)
           | Blocked \<Rightarrow> Blocked
           | Panic \<Rightarrow> Panic))"

section \<open>The goroutine \<^verbatim>\<open>process\<close> and the running program\<close>

text \<open>
  Where the goroutine \<^verbatim>\<open>c.process()\<close> stands: at the receive of line 130, holding a
  received request before the call of line 136, holding an error before the send of
  line 138, or returned (line 133).
\<close>

datatype ('r, 'x) goroutine = AtRecv | AtCall 'r | AtPost 'x | Returned

text \<open>
  The running program: the client, its goroutine, and the errors the application has
  read from \<^verbatim>\<open>ErrorChan\<close> so far, oldest first.
\<close>

record ('e, 'x, 'ev) system =
  client :: "('e, 'x, 'ev) AsyncClient"
  worker :: "(('e, 'x, 'ev) request, 'x) goroutine"
  app_errors :: "'x list"

definition start ::
  "('e, 'x, 'ev) emitter \<Rightarrow> string \<Rightarrow> string \<Rightarrow> ('e, 'x, 'ev) system" where
  "start em addr prefix =
     \<lparr>client = NewAsyncClient em addr prefix, worker = AtRecv, app_errors = []\<rparr>"

text \<open>
  One step of \<^verbatim>\<open>process\<close>, from one access to shared state to the next. A goroutine that
  has returned takes no step (\<open>Blocked\<close>).
\<close>

definition process_step :: "('e, 'x, 'ev) system \<Rightarrow> ('e, 'x, 'ev) system outcome" where
  "process_step s =
     (case worker s of
        AtRecv \<Rightarrow>
          (case chan_recv (requestChan (client s)) of
             Done (Some req, ch) \<Rightarrow>
               Done (s\<lparr>client := (client s)\<lparr>requestChan := ch\<rparr>, worker := AtCall req\<rparr>)
           | Done (None, ch) \<Rightarrow> Done (s\<lparr>worker := Returned\<rparr>)
           | Blocked \<Rightarrow> Blocked
           | Panic \<Rightarrow> Panic)
      | AtCall req \<Rightarrow>
          (case req (statsd (client s)) of
             (Some err, st) \<Rightarrow> Done (s\<lparr>client := (client s)\<lparr>statsd := st\<rparr>, worker := AtPost err\<rparr>)
           | (None, st) \<Rightarrow> Done (s\<lparr>client := (client s)\<lparr>statsd := st\<rparr>, worker := AtRecv\<rparr>))
      | AtPost err \<Rightarrow>
          (case chan_send err (ErrorChan (client s)) of
             Done ch \<Rightarrow> Done (s\<lparr>client := (client s)\<lparr>ErrorChan := ch\<rparr>, worker := AtRecv\<rparr>)
           | Blocked \<Rightarrow> Blocked
           | Panic \<Rightarrow> Panic)
      | Returned \<Rightarrow> Blocked)"

text \<open>
  What the goroutines of a program do to the client: a caller invokes a metric method,
  \<^verbatim>\<open>CreateSocket\<close> or \<^verbatim>\<open>Close\<close>; the goroutine \<^verbatim>\<open>process\<close> takes a step; the
  application receives from \<^verbatim>\<open>ErrorChan\<close>.
\<close>

datatype 'ev action = Call "'ev metric" | CallCreateSocket | CallClose | Worker | ReadError

definition call_metric ::
  "('e, 'x, 'ev) emitter \<Rightarrow> 'ev metric \<Rightarrow> ('e, 'x, 'ev) AsyncClient
     \<Rightarrow> ('e, 'x, 'ev) AsyncClient outcome" where
  "call_metric em m c =
     (case m of
        OpIncr stat n \<Rightarrow> Incr em stat n c
      | OpDecr stat n \<Rightarrow> Decr em stat n c
      | OpTiming stat n \<Rightarrow> Timing em stat n c
      | OpPrecisionTiming stat n \<Rightarrow> PrecisionTiming em stat n c
      | OpGauge stat n \<Rightarrow> Gauge em stat n c
      | OpGaugeDelta stat n \<Rightarrow> GaugeDelta em stat n c
      | OpFGauge stat x \<Rightarrow> FGauge em stat x c
      | OpFGaugeDelta stat x \<Rightarrow> FGaugeDelta em stat x c
      | OpAbsolute stat n \<Rightarrow> Absolute em stat n c
      | OpFAbsolute stat x \<Rightarrow> FAbsolute em stat x c
      | OpTotal stat n \<Rightarrow> Total em stat n c
      | OpSendEvent e \<Rightarrow> SendEvent em e c)"

definition fire ::
  "('e, 'x, 'ev) emitter \<Rightarrow> 'ev action \<Rightarrow> ('e, 'x, 'ev) system \<Rightarrow> ('e, 'x, 'ev) system outcome" where
  "fire em a s =
     (case a of
        Call m \<Rightarrow>
          (case call_metric em m (client s) of
             Done c \<Rightarrow> Done (s\<lparr>client := c\<rparr>) | Blocked \<Rightarrow> Blocked | Panic \<Rightarrow> Panic)
      | CallCreateSocket \<Rightarrow>
          (case CreateSocket em (client s) of (err, c) \<Rightarrow> Done (s\<lparr>client := c\<rparr>))
      | CallClose \<Rightarrow>
          (case Close em (client s) of
             Done (err, c) \<Rightarrow> Done (s\<lparr>client := c\<rparr>) | Blocked \<Rightarrow> Blocked | Panic \<Rightarrow> Panic)
      | Worker \<Rightarrow> process_step s
      | ReadError \<Rightarrow>
          (case chan_recv (ErrorChan (client s)) of
             Done (Some err, ch) \<Rightarrow>
               Done (s\<lparr>client := (client s)\<lparr>ErrorChan := ch\<rparr>, app_errors := app_errors s @ [err]\<rparr>)
           | Done (None, ch) \<Rightarrow> Done s
           | Blocked \<Rightarrow> Blocked
           | Panic \<Rightarrow> Panic))"

text \<open>
  A schedule is one interleaving of such actions. It runs to \<open>Done\<close> when every action
  could complete in its turn; an action that would block cannot be the next one of an
  interleaving, and a panic ends the program.
\<close>

fun run ::
  "('e, 'x, 'ev) emitter \<Rightarrow> 'ev action list \<Rightarrow> ('e, 'x, 'ev) system \<Rightarrow> ('e, 'x, 'ev) system outcome" where
  "run em [] s = Done s"
| "run em (a # as) s =
     (case fire em a s of Done s' \<Rightarrow> run em as s' | Blocked \<Rightarrow> Blocked | Panic \<Rightarrow> Panic)"

text \<open>The metric calls of a schedule, in the order they were made.\<close>

fun calls :: "'ev action list \<Rightarrow> 'ev metric list" where
  "calls [] = []"
| "calls (Call m # as) = m # calls as"
| "calls (a # as) = calls as"

text \<open>The requests taken in charge and not yet called: the one in hand, then the queue.\<close>

definition pending :: "('e, 'x, 'ev) system \<Rightarrow> ('e, 'x, 'ev) request list" where
  "pending s =
     (case worker s of AtCall req \<Rightarrow> [req] | _ \<Rightarrow> []) @ ch_buf (requestChan (client s))"

text \<open>The errors among the results of the synchronous client, oldest first.\<close>

fun errors_of :: "('m \<times> 'x option) list \<Rightarrow> 'x list" where
  "errors_of [] = []"
| "errors_of ((m, Some err) # rs) = err # errors_of rs"
| "errors_of ((m, None) # rs) = errors_of rs"

text \<open>The error the goroutine holds before its send on \<^verbatim>\<open>ErrorChan\<close>, if any.\<close>

definition posting :: "('r, 'x) goroutine \<Rightarrow> 'x list" where
  "posting w = (case w of AtPost err \<Rightarrow> [err] | _ \<Rightarrow> [])"

section \<open>Invariants of the running program\<close>

text \<open>
  The synchronous client has performed a prefix \<open>ms\<close> of the metric calls made so far, and
  the requests still pending are the closures of the remaining calls, in order.
\<close>

definition queued :: "('e, 'x, 'ev) emitter \<Rightarrow> 'ev metric list \<Rightarrow> ('e, 'x, 'ev) system \<Rightarrow> bool" where
  "queued em ms s \<longleftrightarrow>
     (\<exists>ps. pending s = map (statsd_metric em) ps \<and>
           map fst (sent (statsd (client s))) @ ps = ms)"

text \<open>
  The errors read by the application, then those waiting in \<^verbatim>\<open>ErrorChan\<close>, then the one
  the goroutine holds, are the errors the synchronous client returned, in order.
\<close>

definition errors_kept :: "('e, 'x, 'ev) system \<Rightarrow> bool" where
  "errors_kept s \<longleftrightarrow>
     app_errors s @ ch_buf (ErrorChan (client s)) @ posting (worker s) =
       errors_of (sent (statsd (client s)))"

text \<open>
  The channels keep the capacities \<^verbatim>\<open>NewAsyncClient\<close> gave them, nothing in this file closes
  \<^verbatim>\<open>ErrorChan\<close>, and the goroutine has returned only from a closed, empty request channel.
\<close>

definition chans_ok :: "('e, 'x, 'ev) system \<Rightarrow> bool" where
  "chans_ok s \<longleftrightarrow>
     ch_cap (requestChan (client s)) = 1000 \<and>
     ch_cap (ErrorChan (client s)) = 100 \<and>
     length (ch_buf (requestChan (client s))) \<le> 1000 \<and>
     length (ch_buf (ErrorChan (client s))) \<le> 100 \<and>
     \<not> ch_closed (ErrorChan (client s)) \<and>
     (worker s = Returned \<longrightarrow>
        ch_buf (requestChan (client s)) = [] \<and> ch_closed (requestChan (client s)))"

definition reach_inv :: "('e, 'x, 'ev) emitter \<Rightarrow> 'ev metric list \<Rightarrow> ('e, 'x, 'ev) system \<Rightarrow> bool" where
  "reach_inv em ms s \<longleftrightarrow> queued em ms s \<and> errors_kept s \<and> chans_ok s"

section \<open>Synchronous clients to run the program on\<close>

text \<open>One whose every operation succeeds, and one whose metric operations all fail with \<open>err\<close>.\<close>

definition always_ok :: "(unit, string, unit) emitter" where
  "always_ok =
     \<lparr>em_new = (\<lambda>addr prefix. ()),
      em_create_socket = (\<lambda>e. (None, e)),
      em_metric = (\<lambda>m e. (None, e)),
      em_close = (\<lambda>e. (None, e))\<rparr>"

definition always_fails :: "string \<Rightarrow> (unit, string, unit) emitter" where
  "always_fails err =
     \<lparr>em_new = (\<lambda>addr prefix. ()),
      em_create_socket = (\<lambda>e. (None, e)),
      em_metric = (\<lambda>m e. (Some err, e)),
      em_close = (\<lambda>e. (None, e))\<rparr>"

text \<open>One whose \<^verbatim>\<open>Close\<close> fails with \<open>err\<close>.\<close>

definition close_fails :: "string \<Rightarrow> (unit, string, unit) emitter" where
  "close_fails err =
     \<lparr>em_new = (\<lambda>addr prefix. ()),
      em_create_socket = (\<lambda>e. (None, e)),
      em_metric = (\<lambda>m e. (None, e)),
      em_close = (\<lambda>e. (Some err, e))\<rparr>"

text \<open>
  One whose \<^verbatim>\<open>Decr\<close> and \<^verbatim>\<open>Total\<close> fail, each with an error that names the
  operation and its stat, and whose other operations succeed.
\<close>

definition fails_by_name :: "(unit, string, unit) emitter" where
  "fails_by_name =
     \<lparr>em_new = (\<lambda>addr prefix. ()),
      em_create_socket = (\<lambda>e. (None, e)),
      em_metric = (\<lambda>m e.
        (case m of
           OpDecr stat n \<Rightarrow> (Some (''decr '' @ stat), e)
         | OpTotal stat n \<Rightarrow> (Some (''total '' @ stat), e)
         | _ \<Rightarrow> (None, e))),
      em_close = (\<lambda>e. (None, e))\<rparr>"

section \<open>Lemmas\<close>

lemmas model_defs =
  start_def NewAsyncClient_def NewStatsdClient_def make_chan_def fire_def call_metric_def
  Incr_def Decr_def Timing_def PrecisionTiming_def Gauge_def GaugeDelta_def FGauge_def
  FGaugeDelta_def Absolute_def FAbsolute_def Total_def SendEvent_def enqueue_def chan_send_def
  chan_recv_def chan_close_def Close_def CreateSocket_def statsd_Close_def
  statsd_CreateSocket_def statsd_metric_def process_step_def pending_def posting_def

lemma errors_of_append: "errors_of (rs @ rs') = errors_of rs @ errors_of rs'"
  by (induction rs rule: errors_of.induct) auto

lemma call_metric_enqueue: "call_metric em m c = enqueue (statsd_metric em m) c"
  by (cases m)
     (simp_all add: call_metric_def Incr_def Decr_def Timing_def PrecisionTiming_def Gauge_def
        GaugeDelta_def FGauge_def FGaugeDelta_def Absolute_def FAbsolute_def Total_def
        SendEvent_def)

lemma enqueue_Done:
  "enqueue f c = Done c' \<longleftrightarrow>
     \<not> ch_closed (requestChan c) \<and> length (ch_buf (requestChan c)) < ch_cap (requestChan c) \<and>
     c' = c\<lparr>requestChan := (requestChan c)\<lparr>ch_buf := ch_buf (requestChan c) @ [f]\<rparr>\<rparr>"
  by (auto simp: enqueue_def chan_send_def)

lemma fire_Call_Done:
  "fire em (Call m) s = Done s' \<longleftrightarrow>
     \<not> ch_closed (requestChan (client s)) \<and>
     length (ch_buf (requestChan (client s))) < ch_cap (requestChan (client s)) \<and>
     s' = s\<lparr>client := (client s)\<lparr>requestChan :=
            (requestChan (client s))\<lparr>ch_buf := ch_buf (requestChan (client s)) @ [statsd_metric em m]\<rparr>\<rparr>\<rparr>"
  by (auto simp: fire_def call_metric_enqueue enqueue_def chan_send_def)

lemma queued_step:
  assumes "queued em ms s" and "fire em a s = Done s'"
  shows "queued em (ms @ calls [a]) s'"
proof (cases a)
  case (Call m)
  from assms(2) show ?thesis unfolding Call fire_Call_Done
    using assms(1) by (auto simp: queued_def pending_def)
next
  case CallCreateSocket
  with assms show ?thesis
    by (auto simp: queued_def pending_def fire_def CreateSocket_def statsd_CreateSocket_def
          split: prod.splits)
next
  case CallClose
  with assms show ?thesis
    by (auto simp: queued_def pending_def fire_def Close_def statsd_Close_def chan_close_def
          split: prod.splits option.splits if_splits)
next
  case Worker
  show ?thesis
  proof (cases "worker s")
    case AtRecv
    with assms Worker show ?thesis
      by (auto simp: queued_def pending_def fire_def process_step_def chan_recv_def
            split: list.splits if_splits)
  next
    case (AtCall req)
    from assms(1) AtCall obtain p ps where
      p: "req = statsd_metric em p" "ch_buf (requestChan (client s)) = map (statsd_metric em) ps"
         "map fst (sent (statsd (client s))) @ p # ps = ms"
      by (auto simp: queued_def pending_def Cons_eq_map_conv)
    with assms(2) Worker AtCall show ?thesis
      by (auto simp: queued_def pending_def fire_def process_step_def statsd_metric_def
            split: prod.splits option.splits)
  next
    case (AtPost err)
    with assms Worker show ?thesis
      by (auto simp: queued_def pending_def fire_def process_step_def chan_send_def
            split: if_splits)
  next
    case Returned
    with assms Worker show ?thesis
      by (auto simp: fire_def process_step_def)
  qed
next
  case ReadError
  with assms show ?thesis
    by (auto simp: queued_def pending_def fire_def chan_recv_def split: list.splits if_splits)
qed

lemma queued_AtCall:
  "queued em ms s \<Longrightarrow> worker s = AtCall req \<Longrightarrow> \<exists>m. req = statsd_metric em m"
  by (auto simp: queued_def pending_def Cons_eq_map_conv)

lemma errors_kept_step:
  assumes "queued em ms s" and "errors_kept s" and "fire em a s = Done s'"
  shows "errors_kept s'"
proof (cases a)
  case (Call m)
  from assms(3) show ?thesis unfolding Call fire_Call_Done
    using assms(2) by (auto simp: errors_kept_def)
next
  case CallCreateSocket
  with assms show ?thesis
    by (auto simp: errors_kept_def fire_def CreateSocket_def statsd_CreateSocket_def
          split: prod.splits)
next
  case CallClose
  with assms show ?thesis
    by (auto simp: errors_kept_def fire_def Close_def statsd_Close_def chan_close_def
          split: prod.splits option.splits if_splits)
next
  case Worker
  show ?thesis
  proof (cases "worker s")
    case AtRecv
    with assms Worker show ?thesis
      by (auto simp: errors_kept_def posting_def fire_def process_step_def chan_recv_def
            split: list.splits if_splits)
  next
    case (AtCall req)
    with assms(1) obtain m where "req = statsd_metric em m"
      using queued_AtCall by blast
    with assms(2,3) Worker AtCall show ?thesis
      by (auto simp: errors_kept_def posting_def fire_def process_step_def statsd_metric_def
            errors_of_append split: prod.splits option.splits)
  next
    case (AtPost err)
    with assms Worker show ?thesis
      by (auto simp: errors_kept_def posting_def fire_def process_step_def chan_send_def
            split: if_splits)
  next
    case Returned
    with assms Worker show ?thesis
      by (auto simp: fire_def process_step_def)
  qed
next
  case ReadError
  with assms show ?thesis
    by (auto simp: errors_kept_def fire_def chan_recv_def split: list.splits if_splits)
qed

lemma chans_ok_step:
  assumes "chans_ok s" and "fire em a s = Done s'"
  shows "chans_ok s'"
proof (cases a)
  case (Call m)
  from assms(2) show ?thesis unfolding Call fire_Call_Done
    using assms(1) by (auto simp: chans_ok_def)
next
  case CallCreateSocket
  with assms show ?thesis
    by (auto simp: chans_ok_def fire_def CreateSocket_def statsd_CreateSocket_def
          split: prod.splits)
next
  case CallClose
  with assms show ?thesis
    by (auto simp: chans_ok_def fire_def Close_def statsd_Close_def chan_close_def
          split: prod.splits option.splits if_splits)
next
  case Worker
  with assms show ?thesis
    by (cases "worker s")
       (auto simp: chans_ok_def fire_def process_step_def chan_recv_def chan_send_def
          split: list.splits if_splits prod.splits option.splits)
next
  case ReadError
  with assms show ?thesis
    by (auto simp: chans_ok_def fire_def chan_recv_def split: list.splits if_splits)
qed

lemma calls_Cons: "calls (a # as) = calls [a] @ calls as"
  by (cases a) simp_all

lemma calls_append: "calls (as @ bs) = calls as @ calls bs"
  by (induction as rule: calls.induct) simp_all

lemma reach_inv_step:
  "reach_inv em ms s \<Longrightarrow> fire em a s = Done s' \<Longrightarrow> reach_inv em (ms @ calls [a]) s'"
  unfolding reach_inv_def
  using queued_step errors_kept_step chans_ok_step by blast

lemma reach_inv_run:
  "reach_inv em ms s \<Longrightarrow> run em as s = Done s' \<Longrightarrow> reach_inv em (ms @ calls as) s'"
proof (induction as arbitrary: ms s)
  case Nil
  then show ?case by simp
next
  case (Cons a as)
  from Cons.prems(2) obtain s1 where a: "fire em a s = Done s1" and r: "run em as s1 = Done s'"
    by (auto split: outcome.splits)
  from reach_inv_step [OF Cons.prems(1) a] have "reach_inv em (ms @ calls [a]) s1" .
  from Cons.IH [OF this r] show ?case
    by (simp add: calls_Cons [of a as])
qed

lemma reach_inv_start: "reach_inv em [] (start em addr prefix)"
  by (simp add: reach_inv_def queued_def errors_kept_def chans_ok_def pending_def posting_def
        start_def NewAsyncClient_def NewStatsdClient_def make_chan_def)

lemma reach_inv_sched:
  "run em sched (start em addr prefix) = Done s \<Longrightarrow> reach_inv em (calls sched) s"
  using reach_inv_run [OF reach_inv_start] by fastforce

lemma run_append:
  "run em (as @ bs) s =
     (case run em as s of Done s' \<Rightarrow> run em bs s' | Blocked \<Rightarrow> Blocked | Panic \<Rightarrow> Panic)"
  by (induction as arbitrary: s) (auto split: outcome.splits)

lemma fire_other_frame:
  assumes "a \<noteq> Worker" and "fire em a s = Done s'"
  shows "worker s' = worker s \<and> sent (statsd (client s')) = sent (statsd (client s))"
proof (cases a)
  case (Call m)
  from assms(2) show ?thesis unfolding Call fire_Call_Done by simp
qed (use assms in \<open>auto simp: fire_def CreateSocket_def statsd_CreateSocket_def Close_def
        statsd_Close_def chan_close_def chan_recv_def
        split: prod.splits option.splits if_splits list.splits\<close>)

lemma closed_step:
  assumes "fire em a s = Done s'" and "ch_closed (requestChan (client s))"
  shows "ch_closed (requestChan (client s'))"
proof (cases a)
  case (Call m)
  from assms show ?thesis unfolding Call fire_Call_Done by simp
next
  case Worker
  with assms show ?thesis
    by (cases "worker s")
       (auto simp: fire_def process_step_def chan_recv_def chan_send_def
          split: list.splits if_splits prod.splits option.splits)
qed (use assms in \<open>auto simp: fire_def CreateSocket_def statsd_CreateSocket_def Close_def
        statsd_Close_def chan_close_def chan_recv_def
        split: prod.splits option.splits if_splits list.splits\<close>)

lemma closed_run:
  "run em as s = Done s' \<Longrightarrow> ch_closed (requestChan (client s)) \<Longrightarrow>
   ch_closed (requestChan (client s'))"
proof (induction as arbitrary: s)
  case Nil
  then show ?case by simp
next
  case (Cons a as)
  from Cons.prems(1) obtain s1 where a: "fire em a s = Done s1" and r: "run em as s1 = Done s'"
    by (auto split: outcome.splits)
  from Cons.IH [OF r closed_step [OF a Cons.prems(2)]] show ?case .
qed

lemma settle_post:
  assumes "chans_ok s" and "worker s = AtPost err"
  shows "\<exists>ws s'. set ws \<subseteq> {Worker, ReadError} \<and> run em ws s = Done s' \<and> worker s' = AtRecv \<and>
           requestChan (client s') = requestChan (client s)"
proof (cases "length (ch_buf (ErrorChan (client s))) < 100")
  case True
  with assms have "run em [Worker] s =
      Done (s\<lparr>client := (client s)\<lparr>ErrorChan :=
                (ErrorChan (client s))\<lparr>ch_buf := ch_buf (ErrorChan (client s)) @ [err]\<rparr>\<rparr>,
              worker := AtRecv\<rparr>)"
    by (simp add: chans_ok_def fire_def process_step_def chan_send_def)
  then show ?thesis
    by (intro exI [of _ "[Worker]"]) simp
next
  case False
  with assms obtain e es where es: "ch_buf (ErrorChan (client s)) = e # es" "length es < 100"
    by (cases "ch_buf (ErrorChan (client s))") (auto simp: chans_ok_def)
  with assms have "run em [ReadError, Worker] s =
      Done (s\<lparr>client := (client s)\<lparr>ErrorChan :=
                (ErrorChan (client s))\<lparr>ch_buf := es @ [err]\<rparr>\<rparr>,
              worker := AtRecv, app_errors := app_errors s @ [e]\<rparr>)"
    by (simp add: chans_ok_def fire_def process_step_def chan_send_def chan_recv_def)
  then show ?thesis
    by (intro exI [of _ "[ReadError, Worker]"]) simp
qed

lemma settle:
  assumes "chans_ok s" and "worker s \<noteq> Returned"
  shows "\<exists>ws s'. set ws \<subseteq> {Worker, ReadError} \<and> run em ws s = Done s' \<and> worker s' = AtRecv \<and>
           requestChan (client s') = requestChan (client s)"
proof (cases "worker s")
  case AtRecv
  then show ?thesis
    by (intro exI [of _ "[]"]) simp
next
  case (AtCall req)
  then have "\<exists>s1. fire em Worker s = Done s1 \<and>
      (worker s1 = AtRecv \<or> (\<exists>err. worker s1 = AtPost err)) \<and>
      requestChan (client s1) = requestChan (client s)"
    by (cases "req (statsd (client s))")
       (auto simp: fire_def process_step_def split: option.splits)
  then obtain s1 where s1: "fire em Worker s = Done s1"
    "worker s1 = AtRecv \<or> (\<exists>err. worker s1 = AtPost err)"
    "requestChan (client s1) = requestChan (client s)"
    by blast
  show ?thesis
  proof (cases "worker s1 = AtRecv")
    case True
    with s1 have "run em [Worker] s = Done s1" by simp
    with True s1(3) show ?thesis
      by (intro exI [of _ "[Worker]"]) auto
  next
    case False
    with s1(2) obtain err where "worker s1 = AtPost err" by blast
    from settle_post [OF chans_ok_step [OF assms(1) s1(1)] this, of em]
    obtain ws s' where ws: "set ws \<subseteq> {Worker, ReadError}" "run em ws s1 = Done s'"
      "worker s' = AtRecv" "requestChan (client s') = requestChan (client s1)"
      by blast
    from s1(1) ws(2) have "run em (Worker # ws) s = Done s'" by simp
    with ws s1(3) show ?thesis
      by (intro exI [of _ "Worker # ws"]) auto
  qed
next
  case (AtPost err)
  from settle_post [OF assms(1) this] show ?thesis .
next
  case Returned
  with assms show ?thesis by simp
qed

lemma chans_ok_run: "chans_ok s \<Longrightarrow> run em as s = Done s' \<Longrightarrow> chans_ok s'"
proof (induction as arbitrary: s)
  case Nil
  then show ?case by simp
next
  case (Cons a as)
  from Cons.prems(2) obtain s1 where a: "fire em a s = Done s1" and r: "run em as s1 = Done s'"
    by (auto split: outcome.splits)
  from Cons.IH [OF chans_ok_step [OF Cons.prems(1) a] r] show ?case .
qed

lemma drain:
  assumes "chans_ok s" and "ch_closed (requestChan (client s))"
  shows "\<exists>ws s'. set ws \<subseteq> {Worker, ReadError} \<and> run em ws s = Done s' \<and> worker s' = Returned"
  using assms
proof (induction "length (ch_buf (requestChan (client s)))" arbitrary: s rule: less_induct)
  case less
  show ?case
  proof (cases "worker s = Returned")
    case True
    then show ?thesis
      by (intro exI [of _ "[]"]) simp
  next
    case False
    from settle [OF less.prems(1) False, of em]
    obtain ws s1 where ws: "set ws \<subseteq> {Worker, ReadError}" "run em ws s = Done s1"
      "worker s1 = AtRecv" "requestChan (client s1) = requestChan (client s)"
      by blast
    have ok1: "chans_ok s1" using chans_ok_run [OF less.prems(1) ws(2)] .
    show ?thesis
    proof (cases "ch_buf (requestChan (client s1))")
      case Nil
      with ws(3,4) less.prems(2) have "fire em Worker s1 = Done (s1\<lparr>worker := Returned\<rparr>)"
        by (simp add: fire_def process_step_def chan_recv_def)
      with ws(2) have "run em (ws @ [Worker]) s = Done (s1\<lparr>worker := Returned\<rparr>)"
        by (simp add: run_append)
      with ws(1) show ?thesis
        by (intro exI [of _ "ws @ [Worker]"]) auto
    next
      case (Cons req rest)
      with ws(3) have f: "fire em Worker s1 =
          Done (s1\<lparr>client := (client s1)\<lparr>requestChan := (requestChan (client s1))\<lparr>ch_buf := rest\<rparr>\<rparr>,
                   worker := AtCall req\<rparr>)" (is "_ = Done ?s2")
        by (simp add: fire_def process_step_def chan_recv_def)
      have "length (ch_buf (requestChan (client ?s2))) < length (ch_buf (requestChan (client s)))"
        using Cons ws(4) by simp
      moreover have "chans_ok ?s2" using chans_ok_step [OF ok1 f] .
      moreover have "ch_closed (requestChan (client ?s2))"
        using less.prems(2) ws(4) by simp
      ultimately obtain ws' s' where ws': "set ws' \<subseteq> {Worker, ReadError}"
        "run em ws' ?s2 = Done s'" "worker s' = Returned"
        using less.hyps by blast
      from ws(2) f ws'(2) have "run em (ws @ Worker # ws') s = Done s'"
        by (simp add: run_append)
      with ws(1) ws'(1,3) show ?thesis
        by (intro exI [of _ "ws @ Worker # ws'"]) auto
    qed
  qed
qed

lemma calls_workers: "set ws \<subseteq> {Worker, ReadError} \<Longrightarrow> calls ws = []"
  by (induction ws rule: calls.induct) auto

lemma returned_all_sent:
  assumes "reach_inv em ms s" and "worker s = Returned"
  shows "map fst (sent (statsd (client s))) = ms \<and> ch_closed (requestChan (client s))"
  using assms by (auto simp: reach_inv_def queued_def chans_ok_def pending_def)

lemma fire_Worker: "fire em Worker s = process_step s"
  by (simp add: fire_def)

lemma no_errors_step:
  assumes "\<forall>m e. fst (em_metric em m e) = None" and "queued em ms s"
    and "errors_of (sent (statsd (client s))) = []" and "fire em a s = Done s'"
  shows "errors_of (sent (statsd (client s'))) = []"
proof (cases "a = Worker")
  case False
  from fire_other_frame [OF False assms(4)] assms(3) show ?thesis by simp
next
  case True
  show ?thesis
  proof (cases "worker s")
    case (AtCall req)
    with assms(2) obtain m where req: "req = statsd_metric em m"
      using queued_AtCall by blast
    from assms(1) have "fst (em_metric em m (conn (statsd (client s)))) = None" by blast
    with assms(3,4) True AtCall req show ?thesis
      by (auto simp: fire_def process_step_def statsd_metric_def errors_of_append
            split: prod.splits option.splits)
  qed (use assms(3,4) True in \<open>auto simp: fire_def process_step_def chan_recv_def chan_send_def
        split: list.splits if_splits\<close>)
qed

lemma no_errors_run:
  assumes "\<forall>m e. fst (em_metric em m e) = None"
  shows "reach_inv em ms s \<Longrightarrow> errors_of (sent (statsd (client s))) = [] \<Longrightarrow>
         run em as s = Done s' \<Longrightarrow> errors_of (sent (statsd (client s'))) = []"
proof (induction as arbitrary: ms s)
  case Nil
  then show ?case by simp
next
  case (Cons a as)
  from Cons.prems(3) obtain s1 where a: "fire em a s = Done s1" and r: "run em as s1 = Done s'"
    by (auto split: outcome.splits)
  from Cons.prems(1) have q: "queued em ms s" by (simp add: reach_inv_def)
  from Cons.IH [OF reach_inv_step [OF Cons.prems(1) a]
      no_errors_step [OF assms q Cons.prems(2) a] r]
  show ?case .
qed


lemma call_closed_Panic:
  "ch_closed (requestChan c) \<Longrightarrow> call_metric em m c = Panic"
  by (simp add: call_metric_enqueue enqueue_def chan_send_def)

lemma Close_nil_closed:
  "Close em c = Done (None, c') \<Longrightarrow> ch_closed (requestChan c')"
  by (auto simp: Close_def chan_close_def split: prod.splits option.splits if_splits)

text \<open>
  What Go does with a request channel that is already closed: a second \<^verbatim>\<open>Close\<close> whose
  \<^verbatim>\<open>c.statsd.Close()\<close> returns \<^verbatim>\<open>nil\<close> panics on \<^verbatim>\<open>close\<close>, and a metric method panics
  on its send, whether the queue is full or not.
\<close>

lemma Close_closed_Panic:
  "ch_closed (requestChan c) \<Longrightarrow> fst (statsd_Close em (statsd c)) = None \<Longrightarrow>
   Close em c = Panic"
  by (cases "statsd_Close em (statsd c)") (simp add: Close_def chan_close_def)

lemma fire_Call_closed_Panic:
  "ch_closed (requestChan (client s)) \<Longrightarrow> fire em (Call m) s = Panic"
  by (simp add: fire_def call_closed_Panic)

lemma fire_Call_Blocked:
  "fire em (Call m) s = Blocked \<longleftrightarrow>
     \<not> ch_closed (requestChan (client s)) \<and>
     \<not> length (ch_buf (requestChan (client s))) < ch_cap (requestChan (client s))"
  by (auto simp: fire_def call_metric_enqueue enqueue_def chan_send_def)

lemma run_calls:
  "\<not> ch_closed (requestChan (client s)) \<Longrightarrow>
   length (ch_buf (requestChan (client s))) + length ms \<le> ch_cap (requestChan (client s)) \<Longrightarrow>
   run em (map Call ms) s =
     Done (s\<lparr>client := (client s)\<lparr>requestChan :=
            (requestChan (client s))\<lparr>ch_buf :=
               ch_buf (requestChan (client s)) @ map (statsd_metric em) ms\<rparr>\<rparr>\<rparr>)"
proof (induction ms arbitrary: s)
  case Nil
  then show ?case by simp
next
  case (Cons m ms)
  let ?s1 = "s\<lparr>client := (client s)\<lparr>requestChan :=
            (requestChan (client s))\<lparr>ch_buf := ch_buf (requestChan (client s)) @ [statsd_metric em m]\<rparr>\<rparr>\<rparr>"
  from Cons.prems have f: "fire em (Call m) s = Done ?s1"
    by (simp add: fire_Call_Done)
  from Cons.prems have "run em (map Call ms) ?s1 =
      Done (?s1\<lparr>client := (client ?s1)\<lparr>requestChan :=
            (requestChan (client ?s1))\<lparr>ch_buf :=
               ch_buf (requestChan (client ?s1)) @ map (statsd_metric em) ms\<rparr>\<rparr>\<rparr>)"
    by (intro Cons.IH) simp_all
  with f show ?case by simp
qed

lemma blocked_stays:
  assumes "fire em (Call m) s = Blocked" and "fire em a s = Done s'"
    and "a \<noteq> CallClose" and "\<not> (a = Worker \<and> worker s = AtRecv)"
  shows "fire em (Call m) s' = Blocked"
proof -
  from assms(1) have b: "\<not> ch_closed (requestChan (client s))"
    "\<not> length (ch_buf (requestChan (client s))) < ch_cap (requestChan (client s))"
    by (simp_all add: fire_Call_Blocked)
  have "\<not> ch_closed (requestChan (client s')) \<and>
    \<not> length (ch_buf (requestChan (client s'))) < ch_cap (requestChan (client s'))"
  proof (cases a)
    case (Call m')
    with assms(2) b show ?thesis by (simp add: fire_Call_Done)
  next
    case Worker
    with assms(2,4) b show ?thesis
      by (cases "worker s")
         (auto simp: fire_def process_step_def chan_send_def
            split: if_splits prod.splits option.splits)
  next
    case CallClose
    with assms(3) show ?thesis by simp
  qed (use assms(2) b in \<open>auto simp: fire_def CreateSocket_def statsd_CreateSocket_def
        chan_recv_def split: prod.splits option.splits if_splits list.splits\<close>)
  then show ?thesis by (simp add: fire_Call_Blocked)
qed

lemma fire_caller_ErrorChan:
  assumes "a \<noteq> Worker" and "a \<noteq> ReadError" and "fire em a s = Done s'"
  shows "ErrorChan (client s') = ErrorChan (client s)"
proof (cases a)
  case (Call m)
  from assms(3) show ?thesis unfolding Call fire_Call_Done by simp
qed (use assms in \<open>auto simp: fire_def CreateSocket_def statsd_CreateSocket_def Close_def
        statsd_Close_def chan_close_def split: prod.splits option.splits if_splits\<close>)

lemma post_Blocked:
  "worker s = AtPost err \<Longrightarrow>
   fire em Worker s = Blocked \<longleftrightarrow>
     \<not> ch_closed (ErrorChan (client s)) \<and>
     \<not> length (ch_buf (ErrorChan (client s))) < ch_cap (ErrorChan (client s))"
  by (auto simp: fire_def process_step_def chan_send_def)

lemma stalled_run:
  "worker s = AtPost err \<Longrightarrow> fire em Worker s = Blocked \<Longrightarrow> ReadError \<notin> set as \<Longrightarrow>
   run em as s = Done s' \<Longrightarrow>
   Worker \<notin> set as \<and> worker s' = AtPost err \<and> ErrorChan (client s') = ErrorChan (client s) \<and>
   sent (statsd (client s')) = sent (statsd (client s))"
proof (induction as arbitrary: s)
  case Nil
  then show ?case by simp
next
  case (Cons a as)
  from Cons.prems(4) obtain s1 where a: "fire em a s = Done s1" and r: "run em as s1 = Done s'"
    by (auto split: outcome.splits)
  from a Cons.prems(2) have nw: "a \<noteq> Worker" by auto
  from Cons.prems(3) have nr: "a \<noteq> ReadError" "ReadError \<notin> set as" by auto
  from fire_other_frame [OF nw a] fire_caller_ErrorChan [OF nw nr(1) a] Cons.prems(1)
  have f: "worker s1 = AtPost err" "ErrorChan (client s1) = ErrorChan (client s)"
    "sent (statsd (client s1)) = sent (statsd (client s))"
    by simp_all
  with Cons.prems(1,2) have "fire em Worker s1 = Blocked"
    by (simp add: post_Blocked)
  from Cons.IH [OF f(1) this nr(2) r] f nw show ?case by simp
qed

lemma concat_replicate_commute: "concat (replicate n r) @ r = r @ concat (replicate n r)"
  by (induction n) simp_all

lemma failing_rounds:
  "n \<le> 100 \<Longrightarrow>
   run (always_fails e) (concat (replicate n [Call m, Worker, Worker, Worker]))
     (start (always_fails e) addr prefix) =
   Done \<lparr>client =
           \<lparr>statsd = \<lparr>conn = (), sent = replicate n (m, Some e)\<rparr>,
            ErrorChan = \<lparr>ch_buf = replicate n e, ch_cap = 100, ch_closed = False\<rparr>,
            requestChan = make_chan 1000\<rparr>,
         worker = AtRecv, app_errors = []\<rparr>"
proof (induction n)
  case 0
  show ?case
    by (simp add: start_def NewAsyncClient_def NewStatsdClient_def make_chan_def always_fails_def)
next
  case (Suc n)
  have "concat (replicate (Suc n) [Call m, Worker, Worker, Worker]) =
      concat (replicate n [Call m, Worker, Worker, Worker]) @ [Call m, Worker, Worker, Worker]"
    using concat_replicate_commute [of n "[Call m, Worker, Worker, Worker]"] by simp
  moreover from Suc have "run (always_fails e) (concat (replicate n [Call m, Worker, Worker, Worker]))
     (start (always_fails e) addr prefix) =
   Done \<lparr>client =
           \<lparr>statsd = \<lparr>conn = (), sent = replicate n (m, Some e)\<rparr>,
            ErrorChan = \<lparr>ch_buf = replicate n e, ch_cap = 100, ch_closed = False\<rparr>,
            requestChan = make_chan 1000\<rparr>,
         worker = AtRecv, app_errors = []\<rparr>"
    by simp
  ultimately show ?case using Suc.prems
    by (simp add: run_append fire_def call_metric_enqueue enqueue_def chan_send_def chan_recv_def
          process_step_def statsd_metric_def make_chan_def always_fails_def
          replicate_append_same)
qed

text \<open>
  Progress: from every state in which the channels are as \<^verbatim>\<open>NewAsyncClient\<close> made them,
  steps of the goroutine (the application receiving from \<^verbatim>\<open>ErrorChan\<close> where it is full)
  lead to a state with no request pending and no error held; and any list of metric calls
  can be made and executed from the new client.
\<close>

lemma flush:
  assumes "chans_ok s"
  shows "\<exists>ws s'. set ws \<subseteq> {Worker, ReadError} \<and> run em ws s = Done s' \<and> pending s' = [] \<and>
           posting (worker s') = []"
  using assms
proof (induction "length (ch_buf (requestChan (client s)))" arbitrary: s rule: less_induct)
  case less
  show ?case
  proof (cases "worker s = Returned")
    case True
    with less.prems have "pending s = []" "posting (worker s) = []"
      by (simp_all add: chans_ok_def pending_def posting_def)
    then show ?thesis
      by (intro exI [of _ "[]"]) simp
  next
    case False
    from settle [OF less.prems False, of em]
    obtain ws s1 where ws: "set ws \<subseteq> {Worker, ReadError}" "run em ws s = Done s1"
      "worker s1 = AtRecv" "requestChan (client s1) = requestChan (client s)"
      by blast
    have ok1: "chans_ok s1" using chans_ok_run [OF less.prems ws(2)] .
    show ?thesis
    proof (cases "ch_buf (requestChan (client s1))")
      case Nil
      with ws(3) have "pending s1 = []" "posting (worker s1) = []"
        by (simp_all add: pending_def posting_def)
      with ws(1,2) show ?thesis by blast
    next
      case (Cons req rest)
      with ws(3) have f: "fire em Worker s1 =
          Done (s1\<lparr>client := (client s1)\<lparr>requestChan := (requestChan (client s1))\<lparr>ch_buf := rest\<rparr>\<rparr>,
                   worker := AtCall req\<rparr>)" (is "_ = Done ?s2")
        by (simp add: fire_def process_step_def chan_recv_def)
      have "length (ch_buf (requestChan (client ?s2))) < length (ch_buf (requestChan (client s)))"
        using Cons ws(4) by simp
      moreover have "chans_ok ?s2" using chans_ok_step [OF ok1 f] .
      ultimately obtain ws' s' where ws': "set ws' \<subseteq> {Worker, ReadError}"
        "run em ws' ?s2 = Done s'" "pending s' = []" "posting (worker s') = []"
        using less.hyps by blast
      from ws(2) f ws'(2) have "run em (ws @ Worker # ws') s = Done s'"
        by (simp add: run_append)
      with ws(1) ws'(1,3,4) show ?thesis
        by (intro exI [of _ "ws @ Worker # ws'"]) auto
    qed
  qed
qed

lemma flushed_all_sent:
  assumes "reach_inv em ms s" and "pending s = []"
  shows "map fst (sent (statsd (client s))) = ms"
  using assms by (auto simp: reach_inv_def queued_def)

lemma flush_reach:
  assumes "reach_inv em ms s"
  shows "\<exists>ws s'. set ws \<subseteq> {Worker, ReadError} \<and> run em ws s = Done s' \<and> pending s' = [] \<and>
           map fst (sent (statsd (client s'))) = ms \<and>
           app_errors s' @ ch_buf (ErrorChan (client s')) = errors_of (sent (statsd (client s')))"
proof -
  from assms have "chans_ok s" by (simp add: reach_inv_def)
  from flush [OF this, of em] obtain ws s' where
    ws: "set ws \<subseteq> {Worker, ReadError}" "run em ws s = Done s'" "pending s' = []"
      "posting (worker s') = []"
    by blast
  from reach_inv_run [OF assms ws(2)] calls_workers [OF ws(1)]
  have inv: "reach_inv em ms s'" by simp
  from flushed_all_sent [OF inv ws(3)] have "map fst (sent (statsd (client s'))) = ms" .
  moreover from inv ws(4) have
    "app_errors s' @ ch_buf (ErrorChan (client s')) = errors_of (sent (statsd (client s')))"
    by (simp add: reach_inv_def errors_kept_def)
  ultimately show ?thesis using ws by blast
qed

lemma submit_all:
  "\<exists>sched s. calls sched = ms \<and> run em sched (start em addr prefix) = Done s \<and>
     worker s = AtRecv \<and> ch_buf (requestChan (client s)) = [] \<and>
     \<not> ch_closed (requestChan (client s))"
proof (induction ms rule: rev_induct)
  case Nil
  show ?case
    by (intro exI [of _ "[]"] exI [of _ "start em addr prefix"])
       (simp add: start_def NewAsyncClient_def make_chan_def)
next
  case (snoc m ms)
  then obtain sched s where s: "calls sched = ms" "run em sched (start em addr prefix) = Done s"
    "worker s = AtRecv" "ch_buf (requestChan (client s)) = []"
    "\<not> ch_closed (requestChan (client s))"
    by blast
  from reach_inv_sched [OF s(2)] have ok: "chans_ok s" by (simp add: reach_inv_def)
  let ?s1 = "s\<lparr>client := (client s)\<lparr>requestChan :=
      (requestChan (client s))\<lparr>ch_buf := ch_buf (requestChan (client s)) @ [statsd_metric em m]\<rparr>\<rparr>\<rparr>"
  let ?s2 = "?s1\<lparr>client := (client ?s1)\<lparr>requestChan := (requestChan (client ?s1))\<lparr>ch_buf := []\<rparr>\<rparr>,
      worker := AtCall (statsd_metric em m)\<rparr>"
  from ok s(4,5) have f1: "fire em (Call m) s = Done ?s1"
    by (simp add: fire_Call_Done chans_ok_def)
  from s(3,4) have f2: "fire em Worker ?s1 = Done ?s2"
    by (simp add: fire_def process_step_def chan_recv_def)
  have ok2: "chans_ok ?s2"
    using chans_ok_step [OF chans_ok_step [OF ok f1] f2] .
  have "worker ?s2 \<noteq> Returned" by simp
  from settle [OF ok2 this, of em] obtain ws s' where
    ws: "set ws \<subseteq> {Worker, ReadError}" "run em ws ?s2 = Done s'" "worker s' = AtRecv"
      "requestChan (client s') = requestChan (client ?s2)"
    by blast
  from s(2) f1 f2 ws(2) have "run em (sched @ Call m # Worker # ws) (start em addr prefix) = Done s'"
    by (simp add: run_append)
  moreover from s(1) calls_workers [OF ws(1)] have "calls (sched @ Call m # Worker # ws) = ms @ [m]"
    by (simp add: calls_append)
  moreover from ws(4) s(5) have "ch_buf (requestChan (client s')) = []"
    "\<not> ch_closed (requestChan (client s'))"
    by simp_all
  ultimately show ?case using ws(3) by blast
qed

lemma submit_all_sent:
  "\<exists>sched s. calls sched = ms \<and> run em sched (start em addr prefix) = Done s \<and>
     pending s = [] \<and> map fst (sent (statsd (client s))) = ms"
proof -
  from submit_all [of ms em addr prefix] obtain sched s where
    s: "calls sched = ms" "run em sched (start em addr prefix) = Done s"
      "worker s = AtRecv" "ch_buf (requestChan (client s)) = []"
    by blast
  from s(3,4) have p: "pending s = []" by (simp add: pending_def)
  from reach_inv_sched [OF s(2)] s(1) have "reach_inv em ms s" by simp
  from flushed_all_sent [OF this p] s p show ?thesis by blast
qed

lemma queued_AtCall_next:
  assumes "queued em ms s" and "worker s = AtCall req"
  shows "length (sent (statsd (client s))) < length ms \<and>
         req = statsd_metric em (ms ! length (sent (statsd (client s))))"
proof -
  from assms obtain p ps where
    p: "req = statsd_metric em p" "map fst (sent (statsd (client s))) @ p # ps = ms"
    by (auto simp: queued_def pending_def Cons_eq_map_conv)
  from p(2) have "ms ! length (sent (statsd (client s))) = p"
    by (metis length_map nth_append_length)
  moreover from p(2) have "length (sent (statsd (client s))) < length ms"
    by (metis length_map length_append length_Cons less_add_Suc1 add_Suc_right)
  ultimately show ?thesis using p(1) by simp
qed

section \<open>Order of execution\<close>

text \<open>
  C1. Along every interleaving that starts from \<^verbatim>\<open>NewAsyncClient\<close>:
  \<^item> the operations the synchronous client has performed, with their arguments, are exactly
    the first metric calls made, in the order they were made, and the requests not yet
    called (the one the goroutine holds, then the queue) are the closures of the remaining
    calls, in order: nothing is reordered, merged, duplicated or dropped;
  \<^item> every metric method, on an open request channel with a free slot, completes and
    appends the closure of that very operation with its arguments to the queue;
  \<^item> the goroutine can take the steps (the application receiving from \<^verbatim>\<open>ErrorChan\<close> where
    it is full) after which no request is pending and the synchronous client has performed
    every call made, in the order of the calls;
  \<^item> and for every list of metric calls there is a run from the new client in which they
    are made in that order and the synchronous client performs exactly them, in that order.

  The calls of a schedule are in the order in which their sends completed, which for one
  calling goroutine is the order of its calls.
\<close>

theorem submission_order:
  assumes "run em sched (start em addr prefix) = Done s"
  shows "map fst (sent (statsd (client s))) =
           take (length (sent (statsd (client s)))) (calls sched) \<and>
         pending s =
           map (statsd_metric em) (drop (length (sent (statsd (client s)))) (calls sched)) \<and>
         (\<forall>m. \<not> ch_closed (requestChan (client s)) \<and>
              length (ch_buf (requestChan (client s))) < 1000 \<longrightarrow>
            fire em (Call m) s =
              Done (s\<lparr>client := (client s)\<lparr>requestChan :=
                      (requestChan (client s))\<lparr>ch_buf :=
                         ch_buf (requestChan (client s)) @ [statsd_metric em m]\<rparr>\<rparr>\<rparr>)) \<and>
         (\<exists>ws s'. set ws \<subseteq> {Worker, ReadError} \<and> run em ws s = Done s' \<and> pending s' = [] \<and>
            map fst (sent (statsd (client s'))) = calls sched) \<and>
         (\<forall>ms. \<exists>sched' s'. calls sched' = ms \<and>
            run em sched' (start em addr prefix) = Done s' \<and> pending s' = [] \<and>
            map fst (sent (statsd (client s'))) = ms)"
proof -
  have inv: "reach_inv em (calls sched) s" using reach_inv_sched [OF assms] .
  then obtain ps where
    ps: "pending s = map (statsd_metric em) ps"
        "map fst (sent (statsd (client s))) @ ps = calls sched"
    by (auto simp: reach_inv_def queued_def)
  from ps(2) have "take (length (sent (statsd (client s)))) (calls sched) =
      map fst (sent (statsd (client s)))"
    by (metis append_eq_conv_conj length_map)
  moreover from ps(2) have "drop (length (sent (statsd (client s)))) (calls sched) = ps"
    by (metis append_eq_conv_conj length_map)
  ultimately have 1: "map fst (sent (statsd (client s))) =
           take (length (sent (statsd (client s)))) (calls sched) \<and>
         pending s =
           map (statsd_metric em) (drop (length (sent (statsd (client s)))) (calls sched))"
    using ps(1) by simp
  from inv have cap: "ch_cap (requestChan (client s)) = 1000"
    by (simp add: reach_inv_def chans_ok_def)
  have 2: "fire em (Call m) s =
      Done (s\<lparr>client := (client s)\<lparr>requestChan :=
              (requestChan (client s))\<lparr>ch_buf :=
                 ch_buf (requestChan (client s)) @ [statsd_metric em m]\<rparr>\<rparr>\<rparr>)"
    if "\<not> ch_closed (requestChan (client s))"
      "length (ch_buf (requestChan (client s))) < 1000" for m
    using that cap by (simp add: fire_Call_Done)
  from flush_reach [OF inv] have 3: "\<exists>ws s'. set ws \<subseteq> {Worker, ReadError} \<and>
      run em ws s = Done s' \<and> pending s' = [] \<and>
      map fst (sent (statsd (client s'))) = calls sched"
    by blast
  have 4: "\<exists>sched' s'. calls sched' = ms \<and>
      run em sched' (start em addr prefix) = Done s' \<and> pending s' = [] \<and>
      map fst (sent (statsd (client s'))) = ms" for ms
    using submit_all_sent [of ms em addr prefix] .
  from 1 2 3 4 show ?thesis by blast
qed

theorem submission_order_witness:
  "\<exists>s. run always_ok
          [Call (OpIncr ''requests'' 1), Call (OpDecr ''requests'' 2),
           Call (OpTiming ''latency'' 150), Call (OpPrecisionTiming ''latency'' 1500000),
           Call (OpGauge ''temp'' 42), Call (OpGaugeDelta ''temp'' 3),
           Worker, Worker, Worker, Worker,
           Call (OpFGauge ''load'' 7), Call (OpFGaugeDelta ''load'' 8),
           Call (OpAbsolute ''users'' 9), Call (OpFAbsolute ''ratio'' 10),
           Call (OpTotal ''reads'' 11), Call (OpSendEvent ()),
           Worker, Worker, Worker, Worker, Worker, Worker, Worker, Worker, Worker, Worker,
           Worker, Worker, Worker, Worker, Worker, Worker, Worker, Worker, Worker, Worker]
          (start always_ok ''localhost:8125'' ''app.'') = Done s \<and>
       map fst (sent (statsd (client s))) =
         [OpIncr ''requests'' 1, OpDecr ''requests'' 2, OpTiming ''latency'' 150,
          OpPrecisionTiming ''latency'' 1500000, OpGauge ''temp'' 42, OpGaugeDelta ''temp'' 3,
          OpFGauge ''load'' 7, OpFGaugeDelta ''load'' 8, OpAbsolute ''users'' 9,
          OpFAbsolute ''ratio'' 10, OpTotal ''reads'' 11, OpSendEvent ()] \<and>
       pending s = [] \<and>
       \<not> ch_closed (requestChan (client s)) \<and>
       length (ch_buf (requestChan (client s))) < 1000 \<and>
       (\<exists>s'. fire always_ok (Call (OpSendEvent ())) s = Done s' \<and>
             ch_buf (requestChan (client s')) = [statsd_metric always_ok (OpSendEvent ())])"
proof -
  obtain s where r: "run always_ok
          [Call (OpIncr ''requests'' 1), Call (OpDecr ''requests'' 2),
           Call (OpTiming ''latency'' 150), Call (OpPrecisionTiming ''latency'' 1500000),
           Call (OpGauge ''temp'' 42), Call (OpGaugeDelta ''temp'' 3),
           Worker, Worker, Worker, Worker,
           Call (OpFGauge ''load'' 7), Call (OpFGaugeDelta ''load'' 8),
           Call (OpAbsolute ''users'' 9), Call (OpFAbsolute ''ratio'' 10),
           Call (OpTotal ''reads'' 11), Call (OpSendEvent ()),
           Worker, Worker, Worker, Worker, Worker, Worker, Worker, Worker, Worker, Worker,
           Worker, Worker, Worker, Worker, Worker, Worker, Worker, Worker, Worker, Worker]
          (start always_ok ''localhost:8125'' ''app.'') = Done s"
    and l: "length (sent (statsd (client s))) = 12"
    and o: "\<not> ch_closed (requestChan (client s))" "ch_buf (requestChan (client s)) = []"
    by (simp add: model_defs always_ok_def)
  note t = submission_order [OF r]
  note t1 = t [THEN conjunct1]
  note t2 = t [THEN conjunct2, THEN conjunct1]
  note t3 = t [THEN conjunct2, THEN conjunct2, THEN conjunct1, rule_format, of "OpSendEvent ()"]
  from t1 l have a: "map fst (sent (statsd (client s))) =
         [OpIncr ''requests'' 1, OpDecr ''requests'' 2, OpTiming ''latency'' 150,
          OpPrecisionTiming ''latency'' 1500000, OpGauge ''temp'' 42, OpGaugeDelta ''temp'' 3,
          OpFGauge ''load'' 7, OpFGaugeDelta ''load'' 8, OpAbsolute ''users'' 9,
          OpFAbsolute ''ratio'' 10, OpTotal ''reads'' 11, OpSendEvent ()]"
    by simp
  from t2 l have b: "pending s = []" by simp
  from o have "\<not> ch_closed (requestChan (client s)) \<and>
      length (ch_buf (requestChan (client s))) < 1000"
    by simp
  from t3 [OF this] o(2) have "\<exists>s'. fire always_ok (Call (OpSendEvent ())) s = Done s' \<and>
      ch_buf (requestChan (client s')) = [statsd_metric always_ok (OpSendEvent ())]"
    by simp
  with r a b o show ?thesis by (intro exI [of _ s]) simp
qed

section \<open>Errors forwarded to the application\<close>

text \<open>
  C2. Along every interleaving that starts from \<^verbatim>\<open>NewAsyncClient\<close>:
  \<^item> the errors the application has read from \<^verbatim>\<open>ErrorChan\<close>, followed by those waiting in
    it, followed by the one the goroutine holds for its send, are exactly the errors the
    synchronous client returned, unchanged and in the order of the failing executions;
  \<^item> the executions are the first calls made, each once and in order, so that a failed
    call is not executed again;
  \<^item> when the goroutine holds a request, it is the closure of the next call made, and its
    next step performs that operation once, records the synchronous client's result, takes
    the error returned (if any) unchanged as the one to post, and puts nothing back in the
    queue;
  \<^item> the error the goroutine holds is appended to \<^verbatim>\<open>ErrorChan\<close> by its next step whenever
    the channel has room;
  \<^item> and the goroutine can take the steps (the application receiving from \<^verbatim>\<open>ErrorChan\<close>
    where it is full) after which every call made has been executed once and the errors of
    all the failed ones have been read by the application or wait in \<^verbatim>\<open>ErrorChan\<close>.
\<close>

theorem errors_forwarded:
  assumes "run em sched (start em addr prefix) = Done s"
  shows "app_errors s @ ch_buf (ErrorChan (client s)) @ posting (worker s) =
           errors_of (sent (statsd (client s))) \<and>
         map fst (sent (statsd (client s))) =
           take (length (sent (statsd (client s)))) (calls sched) \<and>
         (\<forall>req. worker s = AtCall req \<longrightarrow>
            (\<exists>m r e. length (sent (statsd (client s))) < length (calls sched) \<and>
               m = calls sched ! length (sent (statsd (client s))) \<and>
               req = statsd_metric em m \<and>
               em_metric em m (conn (statsd (client s))) = (r, e) \<and>
               fire em Worker s =
                 Done (s\<lparr>client := (client s)\<lparr>statsd :=
                           \<lparr>conn = e, sent = sent (statsd (client s)) @ [(m, r)]\<rparr>\<rparr>,
                         worker := (case r of None \<Rightarrow> AtRecv | Some err \<Rightarrow> AtPost err)\<rparr>))) \<and>
         (\<forall>err. worker s = AtPost err \<and> length (ch_buf (ErrorChan (client s))) < 100 \<longrightarrow>
            fire em Worker s =
              Done (s\<lparr>client := (client s)\<lparr>ErrorChan :=
                        (ErrorChan (client s))\<lparr>ch_buf := ch_buf (ErrorChan (client s)) @ [err]\<rparr>\<rparr>,
                      worker := AtRecv\<rparr>)) \<and>
         (\<exists>ws s'. set ws \<subseteq> {Worker, ReadError} \<and> run em ws s = Done s' \<and>
            map fst (sent (statsd (client s'))) = calls sched \<and>
            app_errors s' @ ch_buf (ErrorChan (client s')) =
              errors_of (sent (statsd (client s'))))"
proof -
  have inv: "reach_inv em (calls sched) s" using reach_inv_sched [OF assms] .
  then have q: "queued em (calls sched) s" and k: "errors_kept s" and c: "chans_ok s"
    by (simp_all add: reach_inv_def)
  from k have 1: "app_errors s @ ch_buf (ErrorChan (client s)) @ posting (worker s) =
      errors_of (sent (statsd (client s)))"
    by (simp add: errors_kept_def)
  from q obtain ps where "map fst (sent (statsd (client s))) @ ps = calls sched"
    by (auto simp: queued_def)
  then have 2: "map fst (sent (statsd (client s))) =
      take (length (sent (statsd (client s)))) (calls sched)"
    by (metis append_eq_conv_conj length_map)
  have 3: "\<exists>m r e. length (sent (statsd (client s))) < length (calls sched) \<and>
      m = calls sched ! length (sent (statsd (client s))) \<and>
      req = statsd_metric em m \<and>
      em_metric em m (conn (statsd (client s))) = (r, e) \<and>
      fire em Worker s =
        Done (s\<lparr>client := (client s)\<lparr>statsd :=
                  \<lparr>conn = e, sent = sent (statsd (client s)) @ [(m, r)]\<rparr>\<rparr>,
                worker := (case r of None \<Rightarrow> AtRecv | Some err \<Rightarrow> AtPost err)\<rparr>)"
    if w: "worker s = AtCall req" for req
  proof -
    let ?m = "calls sched ! length (sent (statsd (client s)))"
    from queued_AtCall_next [OF q w] have
      n: "length (sent (statsd (client s))) < length (calls sched)"
      and req: "req = statsd_metric em ?m"
      by simp_all
    obtain r e where re: "em_metric em ?m (conn (statsd (client s))) = (r, e)"
      by (cases "em_metric em ?m (conn (statsd (client s)))")
    from w have "fire em Worker s =
        Done (s\<lparr>client := (client s)\<lparr>statsd :=
                  \<lparr>conn = e, sent = sent (statsd (client s)) @ [(?m, r)]\<rparr>\<rparr>,
                worker := (case r of None \<Rightarrow> AtRecv | Some err \<Rightarrow> AtPost err)\<rparr>)"
      unfolding req
      by (cases r) (simp_all add: fire_def process_step_def statsd_metric_def re)
    with n req re show ?thesis by blast
  qed
  from c have 4: "\<forall>err. worker s = AtPost err \<and> length (ch_buf (ErrorChan (client s))) < 100 \<longrightarrow>
            fire em Worker s =
              Done (s\<lparr>client := (client s)\<lparr>ErrorChan :=
                        (ErrorChan (client s))\<lparr>ch_buf := ch_buf (ErrorChan (client s)) @ [err]\<rparr>\<rparr>,
                      worker := AtRecv\<rparr>)"
    by (simp add: chans_ok_def fire_def process_step_def chan_send_def)
  from flush_reach [OF inv] have 5: "\<exists>ws s'. set ws \<subseteq> {Worker, ReadError} \<and>
      run em ws s = Done s' \<and>
      map fst (sent (statsd (client s'))) = calls sched \<and>
      app_errors s' @ ch_buf (ErrorChan (client s')) = errors_of (sent (statsd (client s')))"
    by blast
  from 1 2 3 4 5 show ?thesis by blast
qed

theorem errors_forwarded_witness:
  "(\<exists>s s'. run fails_by_name
        [Call (OpIncr ''a'' 1), Call (OpDecr ''b'' 2), Call (OpTotal ''c'' 3),
         Worker, Worker, Worker]
        (start fails_by_name ''localhost:8125'' ''app.'') = Done s \<and>
      (\<exists>req. worker s = AtCall req) \<and>
      fire fails_by_name Worker s = Done s' \<and> worker s' = AtPost ''decr b'' \<and>
      sent (statsd (client s')) = [(OpIncr ''a'' 1, None), (OpDecr ''b'' 2, Some ''decr b'')] \<and>
      requestChan (client s') = requestChan (client s)) \<and>
   (\<exists>s s'. run fails_by_name
        [Call (OpIncr ''a'' 1), Call (OpDecr ''b'' 2), Call (OpTotal ''c'' 3),
         Worker, Worker, Worker, Worker, Worker, Worker, Worker, ReadError]
        (start fails_by_name ''localhost:8125'' ''app.'') = Done s \<and>
      worker s = AtPost ''total c'' \<and> length (ch_buf (ErrorChan (client s))) < 100 \<and>
      app_errors s = [''decr b''] \<and>
      errors_of (sent (statsd (client s))) = [''decr b'', ''total c''] \<and>
      map fst (sent (statsd (client s))) = [OpIncr ''a'' 1, OpDecr ''b'' 2, OpTotal ''c'' 3] \<and>
      fire fails_by_name Worker s = Done s' \<and>
      ch_buf (ErrorChan (client s')) = [''total c''])"
proof -
  have a: "\<exists>s s'. run fails_by_name
        [Call (OpIncr ''a'' 1), Call (OpDecr ''b'' 2), Call (OpTotal ''c'' 3),
         Worker, Worker, Worker]
        (start fails_by_name ''localhost:8125'' ''app.'') = Done s \<and>
      (\<exists>req. worker s = AtCall req) \<and>
      fire fails_by_name Worker s = Done s' \<and> worker s' = AtPost ''decr b'' \<and>
      sent (statsd (client s')) = [(OpIncr ''a'' 1, None), (OpDecr ''b'' 2, Some ''decr b'')] \<and>
      requestChan (client s') = requestChan (client s)"
  proof -
    obtain s req where r: "run fails_by_name
        [Call (OpIncr ''a'' 1), Call (OpDecr ''b'' 2), Call (OpTotal ''c'' 3),
         Worker, Worker, Worker]
        (start fails_by_name ''localhost:8125'' ''app.'') = Done s"
      and w: "worker s = AtCall req"
      and l: "sent (statsd (client s)) = [(OpIncr ''a'' 1, None)]"
      by (simp add: model_defs fails_by_name_def)
    note t3 = errors_forwarded [OF r, THEN conjunct2, THEN conjunct2, THEN conjunct1,
        rule_format, OF w]
    then obtain m r' e where m: "m = OpDecr ''b'' 2"
      and e: "em_metric fails_by_name m (conn (statsd (client s))) = (r', e)"
      and f: "fire fails_by_name Worker s =
        Done (s\<lparr>client := (client s)\<lparr>statsd :=
                  \<lparr>conn = e, sent = sent (statsd (client s)) @ [(m, r')]\<rparr>\<rparr>,
                worker := (case r' of None \<Rightarrow> AtRecv | Some err \<Rightarrow> AtPost err)\<rparr>)"
      using l by auto
    from e m have "r' = Some ''decr b''"
      by (simp add: fails_by_name_def)
    with f m l r w show ?thesis
      by (intro exI [of _ s] exI [of _ "s\<lparr>client := (client s)\<lparr>statsd :=
                  \<lparr>conn = e, sent = sent (statsd (client s)) @ [(m, r')]\<rparr>\<rparr>,
                worker := (case r' of None \<Rightarrow> AtRecv | Some err \<Rightarrow> AtPost err)\<rparr>"]) simp
  qed
  have b: "\<exists>s s'. run fails_by_name
        [Call (OpIncr ''a'' 1), Call (OpDecr ''b'' 2), Call (OpTotal ''c'' 3),
         Worker, Worker, Worker, Worker, Worker, Worker, Worker, ReadError]
        (start fails_by_name ''localhost:8125'' ''app.'') = Done s \<and>
      worker s = AtPost ''total c'' \<and> length (ch_buf (ErrorChan (client s))) < 100 \<and>
      app_errors s = [''decr b''] \<and>
      errors_of (sent (statsd (client s))) = [''decr b'', ''total c''] \<and>
      map fst (sent (statsd (client s))) = [OpIncr ''a'' 1, OpDecr ''b'' 2, OpTotal ''c'' 3] \<and>
      fire fails_by_name Worker s = Done s' \<and>
      ch_buf (ErrorChan (client s')) = [''total c'']"
  proof -
    obtain s where r: "run fails_by_name
        [Call (OpIncr ''a'' 1), Call (OpDecr ''b'' 2), Call (OpTotal ''c'' 3),
         Worker, Worker, Worker, Worker, Worker, Worker, Worker, ReadError]
        (start fails_by_name ''localhost:8125'' ''app.'') = Done s"
      and w: "worker s = AtPost ''total c''" "app_errors s = [''decr b'']"
        "ch_buf (ErrorChan (client s)) = []"
      and l: "length (sent (statsd (client s))) = 3"
      by (simp add: model_defs fails_by_name_def)
    note t = errors_forwarded [OF r]
    note t1 = t [THEN conjunct1]
    note t2 = t [THEN conjunct2, THEN conjunct1]
    note t4 = t [THEN conjunct2, THEN conjunct2, THEN conjunct2, THEN conjunct1, rule_format,
        of "''total c''"]
    from t1 w have e: "errors_of (sent (statsd (client s))) = [''decr b'', ''total c'']"
      by (simp add: posting_def)
    from t2 l have o: "map fst (sent (statsd (client s))) =
        [OpIncr ''a'' 1, OpDecr ''b'' 2, OpTotal ''c'' 3]"
      by simp
    from w have "worker s = AtPost ''total c'' \<and> length (ch_buf (ErrorChan (client s))) < 100"
      by simp
    from t4 [OF this] w(3) obtain s' where f: "fire fails_by_name Worker s = Done s'"
      "ch_buf (ErrorChan (client s')) = [''total c'']"
      by simp
    from w(3) have n: "length (ch_buf (ErrorChan (client s))) < 100" by simp
    show ?thesis
      by (intro exI [of _ s] exI [of _ s'] conjI) (fact r w(1,2) n e o f)+
  qed
  from a b show ?thesis by (rule conjI)
qed

section \<open>Draining on shutdown\<close>

text \<open>
  C3. Along every interleaving that starts from \<^verbatim>\<open>NewAsyncClient\<close>: when the goroutine
  \<^verbatim>\<open>process\<close> has returned, the request channel has been closed (\<^verbatim>\<open>Close\<close> has returned
  \<^verbatim>\<open>nil\<close>) and the synchronous client has performed every metric call that was made, in
  order; and once the request channel is closed, the goroutine can still take all the steps
  that lead it to return (the application reading \<^verbatim>\<open>ErrorChan\<close> where it is full), having
  by then performed every call made: closing the channel discards no queued request.
\<close>

theorem drained_before_return:
  assumes "run em sched (start em addr prefix) = Done s"
  shows "(worker s = Returned \<longrightarrow>
            ch_closed (requestChan (client s)) \<and>
            map fst (sent (statsd (client s))) = calls sched) \<and>
         (ch_closed (requestChan (client s)) \<longrightarrow>
            (\<exists>ws s'. set ws \<subseteq> {Worker, ReadError} \<and> run em ws s = Done s' \<and>
                     worker s' = Returned \<and>
                     map fst (sent (statsd (client s'))) = calls sched))"
proof -
  have inv: "reach_inv em (calls sched) s" using reach_inv_sched [OF assms] .
  have "worker s = Returned \<longrightarrow>
          ch_closed (requestChan (client s)) \<and> map fst (sent (statsd (client s))) = calls sched"
    using returned_all_sent [OF inv] by simp
  moreover have "\<exists>ws s'. set ws \<subseteq> {Worker, ReadError} \<and> run em ws s = Done s' \<and>
      worker s' = Returned \<and> map fst (sent (statsd (client s'))) = calls sched"
    if c: "ch_closed (requestChan (client s))"
  proof -
    from inv have "chans_ok s" by (simp add: reach_inv_def)
    from drain [OF this c, of em] obtain ws s' where
      ws: "set ws \<subseteq> {Worker, ReadError}" "run em ws s = Done s'" "worker s' = Returned"
      by blast
    from reach_inv_run [OF inv ws(2)] calls_workers [OF ws(1)]
    have "reach_inv em (calls sched) s'" by simp
    from returned_all_sent [OF this ws(3)] ws show ?thesis by blast
  qed
  ultimately show ?thesis by blast
qed

theorem drained_before_return_witness:
  "\<exists>s. run always_ok
          [Call (OpIncr ''a'' 1), Call (OpGauge ''b'' 2), Worker, Call (OpTiming ''c'' 3),
           Call (OpTotal ''d'' 4), Call (OpDecr ''e'' 5), CallClose]
          (start always_ok ''localhost:8125'' ''app.'') = Done s \<and>
       ch_closed (requestChan (client s)) \<and>
       (\<exists>ws s'. set ws \<subseteq> {Worker, ReadError} \<and> run always_ok ws s = Done s' \<and>
          worker s' = Returned \<and>
          map fst (sent (statsd (client s'))) =
            [OpIncr ''a'' 1, OpGauge ''b'' 2, OpTiming ''c'' 3, OpTotal ''d'' 4, OpDecr ''e'' 5])"
proof -
  obtain s where r: "run always_ok
          [Call (OpIncr ''a'' 1), Call (OpGauge ''b'' 2), Worker, Call (OpTiming ''c'' 3),
           Call (OpTotal ''d'' 4), Call (OpDecr ''e'' 5), CallClose]
          (start always_ok ''localhost:8125'' ''app.'') = Done s"
    and c: "ch_closed (requestChan (client s))"
    by (simp add: model_defs always_ok_def)
  from drained_before_return [OF r] c show ?thesis using r by simp
qed

section \<open>Blocking of the callers\<close>

text \<open>
  C4. In every state reached from \<^verbatim>\<open>NewAsyncClient\<close> in which the request channel is open
  (a call on a closed channel panics, see C8): a metric method blocks exactly when the
  request channel holds 1000 requests; from the new client any 1000 calls or fewer in a
  row all complete; as many calls as there are free slots all complete, each appending
  its closure; one call more than the free slots blocks; a blocked call stays blocked
  whatever else completes, short of \<^verbatim>\<open>Close\<close> and of the goroutine's receive; and after
  that receive the call completes. A metric method yields nothing but the changed client:
  it returns no value.
\<close>

theorem enqueue_blocks_iff_full:
  assumes "run em sched (start em addr prefix) = Done s"
    and "\<not> ch_closed (requestChan (client s))"
  shows "(fire em (Call m) s = Blocked \<longleftrightarrow> length (ch_buf (requestChan (client s))) = 1000) \<and>
         (\<forall>ms. length ms \<le> 1000 \<longrightarrow>
            (\<exists>s'. run em (map Call ms) (start em addr prefix) = Done s')) \<and>
         (\<forall>ms. length (ch_buf (requestChan (client s))) + length ms \<le> 1000 \<longrightarrow>
            (\<exists>s'. run em (map Call ms) s = Done s' \<and>
                  ch_buf (requestChan (client s')) =
                    ch_buf (requestChan (client s)) @ map (statsd_metric em) ms)) \<and>
         (\<forall>ms. length (ch_buf (requestChan (client s))) + length ms = 1000 \<longrightarrow>
            run em (map Call (ms @ [m])) s = Blocked) \<and>
         (\<forall>a s'. fire em (Call m) s = Blocked \<and> fire em a s = Done s' \<and> a \<noteq> CallClose \<and>
                 \<not> (a = Worker \<and> worker s = AtRecv) \<longrightarrow>
            fire em (Call m) s' = Blocked) \<and>
         (fire em (Call m) s = Blocked \<and> worker s = AtRecv \<longrightarrow>
            (\<exists>s1 s2. fire em Worker s = Done s1 \<and> fire em (Call m) s1 = Done s2))"
proof -
  from reach_inv_sched [OF assms(1)] have ok: "chans_ok s"
    by (simp add: reach_inv_def)
  then have cap: "ch_cap (requestChan (client s)) = 1000"
    and len: "length (ch_buf (requestChan (client s))) \<le> 1000"
    by (simp_all add: chans_ok_def)
  have 1: "fire em (Call m) s = Blocked \<longleftrightarrow> length (ch_buf (requestChan (client s))) = 1000"
    using assms(2) cap len by (auto simp: fire_Call_Blocked)
  have 2: "\<exists>s'. run em (map Call ms) (start em addr prefix) = Done s'"
    if "length ms \<le> 1000" for ms
    using that run_calls [of "start em addr prefix" ms em]
    by (simp add: start_def NewAsyncClient_def make_chan_def)
  have 3: "\<exists>s'. run em (map Call ms) s = Done s' \<and>
      ch_buf (requestChan (client s')) =
        ch_buf (requestChan (client s)) @ map (statsd_metric em) ms"
    if "length (ch_buf (requestChan (client s))) + length ms \<le> 1000" for ms
    using that run_calls [OF assms(2), of ms em] cap by simp
  have 4: "run em (map Call (ms @ [m])) s = Blocked"
    if "length (ch_buf (requestChan (client s))) + length ms = 1000" for ms
  proof -
    from that run_calls [OF assms(2), of ms em] cap
    have "run em (map Call ms) s =
      Done (s\<lparr>client := (client s)\<lparr>requestChan :=
            (requestChan (client s))\<lparr>ch_buf :=
               ch_buf (requestChan (client s)) @ map (statsd_metric em) ms\<rparr>\<rparr>\<rparr>)"
      (is "_ = Done ?s'")
      by simp
    moreover from that assms(2) cap have "fire em (Call m) ?s' = Blocked"
      by (simp add: fire_Call_Blocked)
    ultimately show ?thesis
      by (simp add: run_append)
  qed
  have 5: "fire em (Call m) s' = Blocked"
    if "fire em (Call m) s = Blocked" "fire em a s = Done s'" "a \<noteq> CallClose"
      "\<not> (a = Worker \<and> worker s = AtRecv)" for a s'
    using blocked_stays [OF that] .
  have 6: "\<exists>s1 s2. fire em Worker s = Done s1 \<and> fire em (Call m) s1 = Done s2"
    if "fire em (Call m) s = Blocked" "worker s = AtRecv"
  proof -
    from that(1) cap len obtain req rest where
      b: "ch_buf (requestChan (client s)) = req # rest" "length rest < 1000"
      by (cases "ch_buf (requestChan (client s))") (auto simp: fire_Call_Blocked)
    with that(2) have "fire em Worker s =
        Done (s\<lparr>client := (client s)\<lparr>requestChan := (requestChan (client s))\<lparr>ch_buf := rest\<rparr>\<rparr>,
                worker := AtCall req\<rparr>)" (is "_ = Done ?s1")
      by (simp add: fire_def process_step_def chan_recv_def)
    moreover from b(2) assms(2) cap have "\<exists>s2. fire em (Call m) ?s1 = Done s2"
      by (simp add: fire_Call_Done)
    ultimately show ?thesis by blast
  qed
  from 1 2 3 4 5 6 show ?thesis by blast
qed

theorem enqueue_blocks_iff_full_witness:
  "(\<exists>s. run always_ok (map Call (replicate 1000 (OpIncr ''requests'' 1)))
          (start always_ok ''localhost:8125'' ''app.'') = Done s \<and>
        \<not> ch_closed (requestChan (client s)) \<and>
        length (ch_buf (requestChan (client s))) = 1000 \<and> worker s = AtRecv \<and>
        fire always_ok (Call (OpGauge ''temp'' 42)) s = Blocked \<and>
        (\<exists>s'. fire always_ok CallCreateSocket s = Done s' \<and>
              fire always_ok (Call (OpGauge ''temp'' 42)) s' = Blocked) \<and>
        (\<exists>s1 s2. fire always_ok Worker s = Done s1 \<and>
              fire always_ok (Call (OpGauge ''temp'' 42)) s1 = Done s2)) \<and>
   (\<exists>s s'. run always_ok [Call (OpIncr ''requests'' 1), Worker, Call (OpDecr ''requests'' 1)]
          (start always_ok ''localhost:8125'' ''app.'') = Done s \<and>
        \<not> ch_closed (requestChan (client s)) \<and>
        length (ch_buf (requestChan (client s))) = 1 \<and>
        fire always_ok (Call (OpGauge ''temp'' 42)) s \<noteq> Blocked \<and>
        run always_ok (map Call [OpGauge ''temp'' 42, OpTiming ''latency'' 150]) s = Done s' \<and>
        length (ch_buf (requestChan (client s'))) = 3)"
proof -
  have full: "\<exists>s. run always_ok (map Call (replicate 1000 (OpIncr ''requests'' 1)))
          (start always_ok ''localhost:8125'' ''app.'') = Done s \<and>
        \<not> ch_closed (requestChan (client s)) \<and>
        length (ch_buf (requestChan (client s))) = 1000 \<and> worker s = AtRecv \<and>
        fire always_ok (Call (OpGauge ''temp'' 42)) s = Blocked \<and>
        (\<exists>s'. fire always_ok CallCreateSocket s = Done s' \<and>
              fire always_ok (Call (OpGauge ''temp'' 42)) s' = Blocked) \<and>
        (\<exists>s1 s2. fire always_ok Worker s = Done s1 \<and>
              fire always_ok (Call (OpGauge ''temp'' 42)) s1 = Done s2)"
  proof -
    obtain s where r: "run always_ok (map Call (replicate 1000 (OpIncr ''requests'' 1)))
          (start always_ok ''localhost:8125'' ''app.'') = Done s"
      and o: "\<not> ch_closed (requestChan (client s))"
        "length (ch_buf (requestChan (client s))) = 1000" "worker s = AtRecv"
      using run_calls [of "start always_ok ''localhost:8125'' ''app.''"
          "replicate 1000 (OpIncr ''requests'' 1)" always_ok]
      by (simp add: start_def NewAsyncClient_def make_chan_def)
    obtain s' where c: "fire always_ok CallCreateSocket s = Done s'"
      by (cases "CreateSocket always_ok (client s)") (simp add: fire_def)
    note t = enqueue_blocks_iff_full [OF r o(1), of "OpGauge ''temp'' 42"]
    note t1 = t [THEN conjunct1]
    note t5 = t [THEN conjunct2, THEN conjunct2, THEN conjunct2, THEN conjunct2, THEN conjunct1]
    note t6 = t [THEN conjunct2, THEN conjunct2, THEN conjunct2, THEN conjunct2, THEN conjunct2]
    from t1 o(2) have b: "fire always_ok (Call (OpGauge ''temp'' 42)) s = Blocked"
      by (simp only:)
    from t5 b c o(3) have b': "fire always_ok (Call (OpGauge ''temp'' 42)) s' = Blocked"
      by blast
    from t6 b o(3) have "\<exists>s1 s2. fire always_ok Worker s = Done s1 \<and>
        fire always_ok (Call (OpGauge ''temp'' 42)) s1 = Done s2"
      by (simp only:)
    with r o b c b' show ?thesis by blast
  qed
  have part: "\<exists>s s'. run always_ok
          [Call (OpIncr ''requests'' 1), Worker, Call (OpDecr ''requests'' 1)]
          (start always_ok ''localhost:8125'' ''app.'') = Done s \<and>
        \<not> ch_closed (requestChan (client s)) \<and>
        length (ch_buf (requestChan (client s))) = 1 \<and>
        fire always_ok (Call (OpGauge ''temp'' 42)) s \<noteq> Blocked \<and>
        run always_ok (map Call [OpGauge ''temp'' 42, OpTiming ''latency'' 150]) s = Done s' \<and>
        length (ch_buf (requestChan (client s'))) = 3"
  proof -
    obtain s where r: "run always_ok
          [Call (OpIncr ''requests'' 1), Worker, Call (OpDecr ''requests'' 1)]
          (start always_ok ''localhost:8125'' ''app.'') = Done s"
      and o: "\<not> ch_closed (requestChan (client s))"
        "length (ch_buf (requestChan (client s))) = 1"
      by (simp add: model_defs always_ok_def)
    note t = enqueue_blocks_iff_full [OF r o(1), of "OpGauge ''temp'' 42"]
    note t1 = t [THEN conjunct1]
    note t3 = t [THEN conjunct2, THEN conjunct2, THEN conjunct1, rule_format,
        of "[OpGauge ''temp'' 42, OpTiming ''latency'' 150]"]
    from t1 o(2) have b: "fire always_ok (Call (OpGauge ''temp'' 42)) s \<noteq> Blocked"
      by simp
    from o(2) have "length (ch_buf (requestChan (client s))) +
        length [OpGauge ''temp'' 42, OpTiming ''latency'' 150 :: unit metric] \<le> 1000"
      by simp
    from t3 [OF this] obtain s' where
      "run always_ok (map Call [OpGauge ''temp'' 42, OpTiming ''latency'' 150]) s = Done s'"
      "ch_buf (requestChan (client s')) = ch_buf (requestChan (client s)) @
         map (statsd_metric always_ok) [OpGauge ''temp'' 42, OpTiming ''latency'' 150]"
      by blast
    with r o b show ?thesis
      by (intro exI [of _ s] exI [of _ s']) simp
  qed
  from full part show ?thesis by blast
qed

section \<open>A failed close\<close>

text \<open>
  C5. When \<^verbatim>\<open>c.statsd.Close()\<close> returns an error, \<^verbatim>\<open>Close\<close> completes at once and returns
  that error; the request channel (open or not, and its queue), \<^verbatim>\<open>ErrorChan\<close>, the
  record of operations performed, the position of the goroutine, its pending requests and
  the errors read by the application are as they were; and the goroutine can take its
  next step exactly when it could before.
\<close>

theorem close_failure:
  assumes "statsd_Close em (statsd (client s)) = (Some err, st)"
  shows "\<exists>s'. fire em CallClose s = Done s' \<and>
           Close em (client s) = Done (Some err, client s') \<and>
           requestChan (client s') = requestChan (client s) \<and>
           ErrorChan (client s') = ErrorChan (client s) \<and>
           statsd (client s') = st \<and>
           sent st = sent (statsd (client s)) \<and>
           worker s' = worker s \<and> pending s' = pending s \<and>
           app_errors s' = app_errors s \<and>
           (fire em Worker s' = Blocked \<longleftrightarrow> fire em Worker s = Blocked)"
proof -
  let ?s' = "s\<lparr>client := (client s)\<lparr>statsd := st\<rparr>\<rparr>"
  from assms have c: "Close em (client s) = Done (Some err, client ?s')"
    by (simp add: Close_def)
  then have f: "fire em CallClose s = Done ?s'"
    by (simp add: fire_def)
  from assms have l: "sent st = sent (statsd (client s))"
    by (auto simp: statsd_Close_def split: prod.splits)
  have w: "fire em Worker ?s' = Blocked \<longleftrightarrow> fire em Worker s = Blocked"
  proof (cases "worker s")
    case (AtCall req)
    then show ?thesis
      by (cases "req st"; cases "req (statsd (client s))")
         (auto simp: fire_def process_step_def split: option.splits)
  qed (auto simp: fire_def process_step_def chan_recv_def chan_send_def
        split: list.splits if_splits)
  from c f l w show ?thesis
    by (intro exI [of _ ?s']) (simp add: pending_def)
qed

theorem close_failure_witness:
  "\<exists>s st s'. run (close_fails ''closed'') [Call (OpIncr ''a'' 1), Call (OpGauge ''b'' 2), Worker]
        (start (close_fails ''closed'') ''localhost:8125'' ''app.'') = Done s \<and>
      statsd_Close (close_fails ''closed'') (statsd (client s)) = (Some ''closed'', st) \<and>
      fire (close_fails ''closed'') CallClose s = Done s' \<and>
      Close (close_fails ''closed'') (client s) = Done (Some ''closed'', client s') \<and>
      \<not> ch_closed (requestChan (client s')) \<and> length (pending s') = 2 \<and>
      fire (close_fails ''closed'') Worker s' \<noteq> Blocked"
proof -
  obtain s st where r: "run (close_fails ''closed'')
        [Call (OpIncr ''a'' 1), Call (OpGauge ''b'' 2), Worker]
        (start (close_fails ''closed'') ''localhost:8125'' ''app.'') = Done s"
    and c: "statsd_Close (close_fails ''closed'') (statsd (client s)) = (Some ''closed'', st)"
    and o: "\<not> ch_closed (requestChan (client s))" "length (pending s) = 2"
      "fire (close_fails ''closed'') Worker s \<noteq> Blocked"
    by (simp add: model_defs close_fails_def)
  from close_failure [OF c] obtain s' where
    "fire (close_fails ''closed'') CallClose s = Done s'"
    "Close (close_fails ''closed'') (client s) = Done (Some ''closed'', client s')"
    "requestChan (client s') = requestChan (client s)" "pending s' = pending s"
    "fire (close_fails ''closed'') Worker s' = Blocked \<longleftrightarrow>
      fire (close_fails ''closed'') Worker s = Blocked"
    by blast
  with r c o show ?thesis by auto
qed

section \<open>Termination of the goroutine\<close>



section \<open>A full error channel\<close>

text \<open>
  C7. In every state reached from \<^verbatim>\<open>NewAsyncClient\<close> in which the goroutine holds an
  error for its send: its step blocks exactly when \<^verbatim>\<open>ErrorChan\<close> holds 100 errors; and
  then, as long as the application does not receive from \<^verbatim>\<open>ErrorChan\<close>, whatever the
  callers do, the goroutine takes no step, keeps holding the error, and the synchronous
  client performs no further operation; once the application has received one error, the
  goroutine posts the one it holds and is back at its receive.
\<close>

theorem full_error_chan_stalls:
  assumes "run em sched (start em addr prefix) = Done s" and "worker s = AtPost err"
  shows "(fire em Worker s = Blocked \<longleftrightarrow> length (ch_buf (ErrorChan (client s))) = 100) \<and>
         (length (ch_buf (ErrorChan (client s))) = 100 \<longrightarrow>
            (\<forall>as s'. ReadError \<notin> set as \<and> run em as s = Done s' \<longrightarrow>
               Worker \<notin> set as \<and> worker s' = AtPost err \<and>
               ErrorChan (client s') = ErrorChan (client s) \<and>
               sent (statsd (client s')) = sent (statsd (client s))) \<and>
            (\<exists>s1 s2. fire em ReadError s = Done s1 \<and>
               app_errors s1 = app_errors s @ [hd (ch_buf (ErrorChan (client s)))] \<and>
               fire em Worker s1 = Done s2 \<and> worker s2 = AtRecv \<and>
               ch_buf (ErrorChan (client s2)) = tl (ch_buf (ErrorChan (client s))) @ [err]))"
proof -
  from reach_inv_sched [OF assms(1)] have ok: "chans_ok s"
    by (simp add: reach_inv_def)
  then have cap: "ch_cap (ErrorChan (client s)) = 100" "\<not> ch_closed (ErrorChan (client s))"
    "length (ch_buf (ErrorChan (client s))) \<le> 100"
    by (simp_all add: chans_ok_def)
  have 1: "fire em Worker s = Blocked \<longleftrightarrow> length (ch_buf (ErrorChan (client s))) = 100"
    using cap by (auto simp: post_Blocked [OF assms(2)])
  have 2: "Worker \<notin> set as \<and> worker s' = AtPost err \<and>
      ErrorChan (client s') = ErrorChan (client s) \<and>
      sent (statsd (client s')) = sent (statsd (client s))"
    if "length (ch_buf (ErrorChan (client s))) = 100" "ReadError \<notin> set as"
      "run em as s = Done s'" for as s'
    using stalled_run [OF assms(2) _ that(2,3)] 1 that(1) by blast
  have 3: "\<exists>s1 s2. fire em ReadError s = Done s1 \<and>
      app_errors s1 = app_errors s @ [hd (ch_buf (ErrorChan (client s)))] \<and>
      fire em Worker s1 = Done s2 \<and> worker s2 = AtRecv \<and>
      ch_buf (ErrorChan (client s2)) = tl (ch_buf (ErrorChan (client s))) @ [err]"
    if "length (ch_buf (ErrorChan (client s))) = 100"
  proof -
    from that obtain e es where es: "ch_buf (ErrorChan (client s)) = e # es" "length es < 100"
      by (cases "ch_buf (ErrorChan (client s))") auto
    let ?s1 = "s\<lparr>client := (client s)\<lparr>ErrorChan := (ErrorChan (client s))\<lparr>ch_buf := es\<rparr>\<rparr>,
                 app_errors := app_errors s @ [e]\<rparr>"
    let ?s2 = "?s1\<lparr>client := (client ?s1)\<lparr>ErrorChan :=
                (ErrorChan (client ?s1))\<lparr>ch_buf := es @ [err]\<rparr>\<rparr>, worker := AtRecv\<rparr>"
    from es have "fire em ReadError s = Done ?s1"
      by (simp add: fire_def chan_recv_def)
    moreover from es cap assms(2) have "fire em Worker ?s1 = Done ?s2"
      by (simp add: fire_def process_step_def chan_send_def)
    ultimately show ?thesis using es(1)
      by (intro exI [of _ ?s1] exI [of _ ?s2]) simp
  qed
  from 1 2 3 show ?thesis by blast
qed

theorem full_error_chan_stalls_witness:
  "\<exists>s. run (always_fails ''E'')
          (concat (replicate 100 [Call (OpIncr ''a'' 1), Worker, Worker, Worker]) @
             [Call (OpIncr ''a'' 1), Worker, Worker])
          (start (always_fails ''E'') ''localhost:8125'' ''app.'') = Done s \<and>
       worker s = AtPost ''E'' \<and> length (ch_buf (ErrorChan (client s))) = 100 \<and>
       fire (always_fails ''E'') Worker s = Blocked \<and>
       (\<exists>s'. run (always_fails ''E'') [Call (OpGauge ''b'' 2), CallCreateSocket] s = Done s' \<and>
             worker s' = AtPost ''E'' \<and>
             sent (statsd (client s')) = sent (statsd (client s))) \<and>
       (\<exists>s1 s2. fire (always_fails ''E'') ReadError s = Done s1 \<and>
             fire (always_fails ''E'') Worker s1 = Done s2 \<and> worker s2 = AtRecv)"
proof -
  obtain s where t: "run (always_fails ''E'') [Call (OpIncr ''a'' 1), Worker, Worker]
        \<lparr>client =
           \<lparr>statsd = \<lparr>conn = (), sent = replicate 100 (OpIncr ''a'' 1, Some ''E'')\<rparr>,
            ErrorChan = \<lparr>ch_buf = replicate 100 ''E'', ch_cap = 100, ch_closed = False\<rparr>,
            requestChan = make_chan 1000\<rparr>,
         worker = AtRecv, app_errors = []\<rparr> = Done s"
    and w: "worker s = AtPost ''E''" "length (ch_buf (ErrorChan (client s))) = 100"
    and q: "requestChan (client s) = make_chan 1000"
    by (simp add: fire_def call_metric_enqueue enqueue_def chan_send_def chan_recv_def
          process_step_def statsd_metric_def make_chan_def always_fails_def)
  have r: "run (always_fails ''E'')
          (concat (replicate 100 [Call (OpIncr ''a'' 1), Worker, Worker, Worker]) @
             [Call (OpIncr ''a'' 1), Worker, Worker])
          (start (always_fails ''E'') ''localhost:8125'' ''app.'') = Done s"
    unfolding run_append failing_rounds [OF order_refl] outcome.case by (rule t)
  from q obtain s1 where f1: "fire (always_fails ''E'') (Call (OpGauge ''b'' 2)) s = Done s1"
    by (simp add: fire_Call_Done make_chan_def)
  obtain s' where f2: "fire (always_fails ''E'') CallCreateSocket s1 = Done s'"
    by (cases "CreateSocket (always_fails ''E'') (client s1)") (simp add: fire_def)
  from f1 f2 have r': "run (always_fails ''E'') [Call (OpGauge ''b'' 2), CallCreateSocket] s =
      Done s'"
    by simp
  note t = full_error_chan_stalls [OF r w(1)]
  from t w(2) have b: "fire (always_fails ''E'') Worker s = Blocked" by blast
  have "ReadError \<notin> set [Call (OpGauge ''b'' 2), CallCreateSocket]" by simp
  with t w(2) r' have "worker s' = AtPost ''E'' \<and>
      sent (statsd (client s')) = sent (statsd (client s))"
    by blast
  moreover from t w(2) have "\<exists>s1 s2. fire (always_fails ''E'') ReadError s = Done s1 \<and>
      fire (always_fails ''E'') Worker s1 = Done s2 \<and> worker s2 = AtRecv"
    by blast
  ultimately show ?thesis using r w b r' by blast
qed

section \<open>Calls after a close\<close>

text \<open>
  C8. When \<^verbatim>\<open>Close\<close> has returned \<^verbatim>\<open>nil\<close>, then after any further actions that complete,
  every metric method panics on its send to the closed request channel: the call neither
  returns nor waits, and nothing is enqueued.
\<close>

theorem call_after_close_panics:
  assumes "Close em (client s) = Done (None, c)"
    and "run em as (s\<lparr>client := c\<rparr>) = Done s'"
  shows "fire em CallClose s = Done (s\<lparr>client := c\<rparr>) \<and>
         call_metric em m (client s') = Panic \<and>
         fire em (Call m) s' = Panic"
proof -
  from Close_nil_closed [OF assms(1)] have "ch_closed (requestChan (client (s\<lparr>client := c\<rparr>)))"
    by simp
  from closed_run [OF assms(2) this] have "ch_closed (requestChan (client s'))" .
  from call_closed_Panic [OF this] assms(1) show ?thesis
    by (simp add: fire_def)
qed

theorem call_after_close_panics_witness:
  "\<exists>c s'. Close always_ok (client (start always_ok ''localhost:8125'' ''app.'')) = Done (None, c) \<and>
     run always_ok [Worker, CallCreateSocket]
       ((start always_ok ''localhost:8125'' ''app.'')\<lparr>client := c\<rparr>) = Done s' \<and>
     Incr always_ok ''requests'' 1 (client s') = Panic \<and>
     fire always_ok (Call (OpIncr ''requests'' 1)) s' = Panic"
proof -
  define c where "c = (client (start always_ok ''localhost:8125'' ''app.''))
      \<lparr>requestChan := make_chan 1000 \<lparr>ch_closed := True\<rparr>\<rparr>"
  have c: "Close always_ok (client (start always_ok ''localhost:8125'' ''app.'')) =
      Done (None, c)"
    by (simp add: c_def model_defs always_ok_def)
  obtain s' where r: "run always_ok [Worker, CallCreateSocket]
       ((start always_ok ''localhost:8125'' ''app.'')\<lparr>client := c\<rparr>) = Done s'"
    by (simp add: c_def model_defs always_ok_def)
  from call_after_close_panics [OF c r, of "OpIncr ''requests'' 1"] c r show ?thesis
    by (auto simp: call_metric_def)
qed

section \<open>Successful calls\<close>

text \<open>
  C9. Along every interleaving that starts from \<^verbatim>\<open>NewAsyncClient\<close>: when the goroutine
  holds a request whose call returns no error, its next step makes that call and leaves
  \<^verbatim>\<open>ErrorChan\<close> and the errors read by the application as they were, and the goroutine
  is back at its receive; and with a synchronous client whose metric operations never
  fail, \<^verbatim>\<open>ErrorChan\<close> is still the empty channel \<^verbatim>\<open>NewAsyncClient\<close> made, the goroutine
  holds no error to post, and the application has read none.
\<close>

theorem success_posts_nothing:
  assumes "run em sched (start em addr prefix) = Done s"
  shows "(\<forall>req. worker s = AtCall req \<and> fst (req (statsd (client s))) = None \<longrightarrow>
            (\<exists>s'. fire em Worker s = Done s' \<and> worker s' = AtRecv \<and>
                  ErrorChan (client s') = ErrorChan (client s) \<and>
                  app_errors s' = app_errors s)) \<and>
         ((\<forall>m e. fst (em_metric em m e) = None) \<longrightarrow>
            ErrorChan (client s) = make_chan 100 \<and> posting (worker s) = [] \<and>
            app_errors s = [])"
proof -
  have inv: "reach_inv em (calls sched) s" using reach_inv_sched [OF assms] .
  have "\<exists>s'. fire em Worker s = Done s' \<and> worker s' = AtRecv \<and>
      ErrorChan (client s') = ErrorChan (client s) \<and> app_errors s' = app_errors s"
    if "worker s = AtCall req" and "fst (req (statsd (client s))) = None" for req
    using that by (cases "req (statsd (client s))") (simp add: fire_def process_step_def)
  moreover have "ErrorChan (client s) = make_chan 100 \<and> posting (worker s) = [] \<and>
      app_errors s = []"
    if ok: "\<forall>m e. fst (em_metric em m e) = None"
  proof -
    have "errors_of (sent (statsd (client (start em addr prefix)))) = []"
      by (simp add: start_def NewAsyncClient_def NewStatsdClient_def)
    from no_errors_run [OF ok reach_inv_start this assms]
    have "errors_of (sent (statsd (client s))) = []" .
    with inv have e: "app_errors s = []" "ch_buf (ErrorChan (client s)) = []"
      "posting (worker s) = []"
      by (simp_all add: reach_inv_def errors_kept_def)
    from inv have "ch_cap (ErrorChan (client s)) = 100" "\<not> ch_closed (ErrorChan (client s))"
      by (simp_all add: reach_inv_def chans_ok_def)
    with e(2) have "ErrorChan (client s) = make_chan 100"
      by (cases "ErrorChan (client s)") (simp add: make_chan_def)
    with e show ?thesis by simp
  qed
  ultimately show ?thesis by blast
qed

theorem success_posts_nothing_witness:
  "\<exists>s req. run always_ok
          [Call (OpIncr ''requests'' 1), Call (OpGauge ''temp'' 42),
           Call (OpTiming ''latency'' 150), Worker, Worker, Worker, Worker, Worker]
          (start always_ok ''localhost:8125'' ''app.'') = Done s \<and>
       worker s = AtCall req \<and> fst (req (statsd (client s))) = None \<and>
       (\<forall>m e. fst (em_metric always_ok m e) = None) \<and>
       ErrorChan (client s) = make_chan 100 \<and> app_errors s = [] \<and>
       (\<exists>s'. fire always_ok Worker s = Done s' \<and> worker s' = AtRecv \<and>
             ErrorChan (client s') = make_chan 100)"
proof -
  obtain s req where r: "run always_ok
          [Call (OpIncr ''requests'' 1), Call (OpGauge ''temp'' 42),
           Call (OpTiming ''latency'' 150), Worker, Worker, Worker, Worker, Worker]
          (start always_ok ''localhost:8125'' ''app.'') = Done s"
    and w: "worker s = AtCall req" "fst (req (statsd (client s))) = None"
    by (simp add: model_defs always_ok_def)
  have ok: "\<forall>m e. fst (em_metric always_ok m e) = None"
    by (simp add: always_ok_def)
  from success_posts_nothing [OF r] ok have
    q: "ErrorChan (client s) = make_chan 100" "app_errors s = []" by simp_all
  from success_posts_nothing [OF r] w obtain s' where
    "fire always_ok Worker s = Done s'" "worker s' = AtRecv"
    "ErrorChan (client s') = ErrorChan (client s)"
    by blast
  with r w ok q show ?thesis by auto
qed

section \<open>A successful close\<close>

text \<open>
  C10. When \<^verbatim>\<open>c.statsd.Close()\<close> returns \<^verbatim>\<open>nil\<close> and the request channel is still open,
  \<^verbatim>\<open>Close\<close> completes at once and returns \<^verbatim>\<open>nil\<close>, and all it does to the client is to
  mark the request channel closed: the queue, \<^verbatim>\<open>ErrorChan\<close>, the record of operations
  performed, the position of the goroutine, its pending requests and the errors read by
  the application are as they were. A request that was at the head of the queue is
  received and called by the next two steps of the goroutine, after \<^verbatim>\<open>Close\<close> has
  returned.
\<close>

theorem close_success_frame:
  assumes "statsd_Close em (statsd (client s)) = (None, st)"
    and "\<not> ch_closed (requestChan (client s))"
  shows "\<exists>s'. fire em CallClose s = Done s' \<and>
           Close em (client s) = Done (None, client s') \<and>
           requestChan (client s') = (requestChan (client s))\<lparr>ch_closed := True\<rparr> \<and>
           ErrorChan (client s') = ErrorChan (client s) \<and>
           statsd (client s') = st \<and>
           sent st = sent (statsd (client s)) \<and>
           worker s' = worker s \<and> pending s' = pending s \<and>
           app_errors s' = app_errors s \<and>
           (\<forall>req rest. worker s = AtRecv \<and> ch_buf (requestChan (client s)) = req # rest \<longrightarrow>
              (\<exists>s1 s2. fire em Worker s' = Done s1 \<and> worker s1 = AtCall req \<and>
                 fire em Worker s1 = Done s2 \<and> statsd (client s2) = snd (req st) \<and>
                 ch_buf (requestChan (client s2)) = rest))"
proof -
  let ?s' = "s\<lparr>client := (client s)\<lparr>statsd := st,
                requestChan := (requestChan (client s))\<lparr>ch_closed := True\<rparr>\<rparr>\<rparr>"
  from assms have c: "Close em (client s) = Done (None, client ?s')"
    by (simp add: Close_def chan_close_def)
  then have f: "fire em CallClose s = Done ?s'"
    by (simp add: fire_def)
  from assms(1) have l: "sent st = sent (statsd (client s))"
    by (auto simp: statsd_Close_def split: prod.splits)
  have w: "\<exists>s1 s2. fire em Worker ?s' = Done s1 \<and> worker s1 = AtCall req \<and>
      fire em Worker s1 = Done s2 \<and> statsd (client s2) = snd (req st) \<and>
      ch_buf (requestChan (client s2)) = rest"
    if "worker s = AtRecv" "ch_buf (requestChan (client s)) = req # rest" for req rest
    using that
    by (cases "req st")
       (auto simp: fire_def process_step_def chan_recv_def split: option.splits)
  from c f l w show ?thesis
    by (intro exI [of _ ?s']) (simp add: pending_def)
qed

theorem close_success_frame_witness:
  "\<exists>s st s' req rest s1 s2.
      run always_ok [Call (OpIncr ''a'' 1), Call (OpGauge ''b'' 2)]
        (start always_ok ''localhost:8125'' ''app.'') = Done s \<and>
      statsd_Close always_ok (statsd (client s)) = (None, st) \<and>
      \<not> ch_closed (requestChan (client s)) \<and>
      worker s = AtRecv \<and> ch_buf (requestChan (client s)) = req # rest \<and>
      fire always_ok CallClose s = Done s' \<and>
      Close always_ok (client s) = Done (None, client s') \<and>
      ch_closed (requestChan (client s')) \<and> length (pending s') = 2 \<and>
      worker s' = AtRecv \<and>
      run always_ok [Worker, Worker] s' = Done s2 \<and>
      map fst (sent (statsd (client s2))) = [OpIncr ''a'' 1]"
proof -
  obtain s st req rest where r: "run always_ok [Call (OpIncr ''a'' 1), Call (OpGauge ''b'' 2)]
        (start always_ok ''localhost:8125'' ''app.'') = Done s"
    and c: "statsd_Close always_ok (statsd (client s)) = (None, st)"
    and o: "\<not> ch_closed (requestChan (client s))"
    and w: "worker s = AtRecv" "ch_buf (requestChan (client s)) = req # rest"
    and p: "length (pending s) = 2" "map fst (sent (snd (req st))) = [OpIncr ''a'' 1]"
    by (simp add: model_defs always_ok_def)
  from close_success_frame [OF c o] w obtain s' s1 s2 where
    s': "fire always_ok CallClose s = Done s'"
      "Close always_ok (client s) = Done (None, client s')"
      "requestChan (client s') = (requestChan (client s))\<lparr>ch_closed := True\<rparr>"
      "worker s' = worker s" "pending s' = pending s"
    and s2: "fire always_ok Worker s' = Done s1" "fire always_ok Worker s1 = Done s2"
      "statsd (client s2) = snd (req st)"
    by blast
  from s2 have "run always_ok [Worker, Worker] s' = Done s2" by simp
  with r c o w p s' s2(3) show ?thesis
    by (intro exI [of _ s] exI [of _ st] exI [of _ s'] exI [of _ req] exI [of _ rest]
          exI [of _ s1] exI [of _ s2]) simp
qed

end
